theory Spec2Isabelle
  imports Main "HOL-Library.Word" "HOL-Library.List_Lexorder" "HOL-Library.Multiset"
    "HOL-Library.Sublist" "HOL-Library.Code_Target_Numeral"
begin

section \<open>JavaScript values\<close>

text \<open>
  A JavaScript string is a sequence of UTF-16 code units; the default \<open>Array.prototype.sort\<close>
  compares strings code unit by code unit, which is the lexicographic order of
  \<open>HOL-Library.List_Lexorder\<close> over the unsigned order of 16-bit words.
  A \<open>Uint8Array\<close> is a list of bytes. A field that holds a buffer can hold
  \<open>null\<close>, a \<open>Uint8Array\<close> (v2) or an SJCL bitArray, a plain array of numbers (v1).
\<close>

type_synonym byte = "8 word"

type_synonym jsstring = "16 word list"

definition js :: "string \<Rightarrow> jsstring" where
  "js s = map (\<lambda>c. of_nat (of_char c)) s"

datatype buf = Null | U8 "byte list" | Bits "int list"

text \<open>The values the version field of a parsed envelope can hold (\<open>JUndefined\<close>: the
  field is absent; \<open>JObject\<close>: any array or object).\<close>

datatype jsval = JUndefined | JNull | JBool bool | JNum int | JStr jsstring | JObject

fun falsy :: "jsval \<Rightarrow> bool" where
  "falsy JUndefined = True"
| "falsy JNull = True"
| "falsy (JBool b) = (\<not> b)"
| "falsy (JNum n) = (n = 0)"
| "falsy (JStr s) = (s = [])"
| "falsy JObject = False"

text \<open>\<open>ToNumber\<close> of a number that may be \<open>null\<close>.\<close>

fun to_num :: "int option \<Rightarrow> int" where
  "to_num None = 0"
| "to_num (Some n) = n"

datatype error = TypeError | ReferenceError | LibraryError | TestFailure

section \<open>The envelope\<close>

text \<open>
  One entry of \<open>keys\<close> is \<open>{iv, key}\<close>; the fields are named \<open>kiv\<close> and \<open>kkey\<close> here
  because the envelope has an \<open>iv\<close> of its own. The same object shape is used with
  base64 text in the buffer fields (the JSON form, \<open>jsstring cipherobj\<close>) and with
  decoded buffers (the working form, \<open>buf cipherobj\<close>). An object that has no
  \<open>keys\<close> property yet is modelled with the empty list.
\<close>

record 'a keyiv =
  kiv :: 'a
  kkey :: 'a

record 'a cipherobj =
  adata :: jsstring
  iter :: int
  mode :: jsstring
  cipher :: jsstring
  ts :: int
  ks :: int
  salt :: 'a
  iv :: 'a
  v :: jsval
  ct :: 'a
  fn :: "jsstring option"
  ft :: "jsstring option"
  nkeys :: "int option"
  nunlock :: "int option"
  keys :: "'a keyiv list"

section \<open>Libraries the code calls\<close>

text \<open>
  The code imports \<open>@noble/ciphers\<close> and \<open>@noble/hashes\<close> and uses the builtins
  \<open>TextEncoder\<close>, \<open>btoa\<close>, \<open>atob\<close> and \<open>JSON\<close>. None of them is part of the
  repository, so each is a parameter. A call that throws returns \<open>Inl\<close>.
  \<open>chacha_encrypt key nonce aad plaintext\<close> is
  \<open>chacha20poly1305(key, nonce, aad).encrypt(plaintext)\<close>, and likewise for
  \<open>chacha_decrypt\<close>. The serialised text has an abstract type \<open>'j\<close>.
\<close>

record 'j library =
  chacha_encrypt :: "buf \<Rightarrow> buf \<Rightarrow> buf \<Rightarrow> buf \<Rightarrow> error + byte list"
  chacha_decrypt :: "buf \<Rightarrow> buf \<Rightarrow> buf \<Rightarrow> buf \<Rightarrow> error + byte list"
  pbkdf2_sha256 :: "byte list \<Rightarrow> buf \<Rightarrow> int \<Rightarrow> nat \<Rightarrow> error + byte list"
  utf8_encode :: "jsstring \<Rightarrow> byte list"
  btoa :: "jsstring \<Rightarrow> error + jsstring"
  atob :: "jsstring \<Rightarrow> error + jsstring"
  json_stringify :: "jsstring cipherobj \<Rightarrow> 'j"
  json_parse :: "'j \<Rightarrow> error + jsstring cipherobj"

text \<open>
  The global \<open>sjcl\<close>, when it is defined. \<open>sjcl_decrypt cipher mode key ct iv adata ts\<close>
  is \<open>sjcl.mode[mode].decrypt(new sjcl.cipher[cipher](key), ct, iv, adata, ts)\<close>.
\<close>

record sjcl_lib =
  sjcl_pbkdf2 :: "jsstring \<Rightarrow> buf \<Rightarrow> int \<Rightarrow> int \<Rightarrow> error + int list"
  sjcl_decrypt :: "jsstring \<Rightarrow> jsstring \<Rightarrow> buf \<Rightarrow> buf \<Rightarrow> buf \<Rightarrow> jsstring \<Rightarrow> int \<Rightarrow> error + int list"
  sjcl_toBits :: "jsstring \<Rightarrow> error + int list"
  sjcl_bitLength :: "int list \<Rightarrow> nat"

section \<open>The keybearer object and its environment\<close>

text \<open>
  The calls into the cryptographic libraries are recorded, in order, in \<open>calls\<close>:
  a key derivation with its password string, an AEAD seal and an AEAD open with
  key, nonce and data.
\<close>

datatype call = Derive jsstring | Seal buf buf buf | Open buf buf buf

text \<open>
  The fields of the singleton \<open>keybearer\<close> (a leading underscore is written \<open>kb_\<close>),
  followed by the part of the JavaScript environment the code reads: whether the
  global \<open>sjcl\<close> is defined, the bytes \<open>crypto.getRandomValues\<close> will deliver
  and how many of them have been consumed, and the record of library calls. The
  word lists are used by password generation only and are left out.
\<close>

record kbstate =
  salt_length :: nat
  aes_key_strength :: nat
  aes_cipher_mode :: jsstring
  pbkdf2_iterations :: int
  kb_salt :: buf
  kb_plaintext :: buf
  kb_cipherobj :: "buf cipherobj option"
  kb_keys :: "buf list"
  kb_master :: buf
  kb_filename :: "jsstring option"
  kb_filetype :: "jsstring option"
  kb_nPasswords :: "int option"
  kb_nToUnlock :: "int option"
  kb_lastMetadata :: "buf cipherobj option"
  sjcl :: "sjcl_lib option"
  entropy :: "nat \<Rightarrow> byte"
  entropy_pos :: nat
  calls :: "call list"

text \<open>The object literal of \<open>kb.js\<close>, in a given environment.\<close>

definition keybearer :: "sjcl_lib option \<Rightarrow> (nat \<Rightarrow> byte) \<Rightarrow> kbstate" where
  "keybearer lib rnd =
     \<lparr> salt_length = 16, aes_key_strength = 32,
       aes_cipher_mode = js ''chacha20poly1305'', pbkdf2_iterations = 50000,
       kb_salt = Null, kb_plaintext = Null, kb_cipherobj = None, kb_keys = [],
       kb_master = Null, kb_filename = None, kb_filetype = None,
       kb_nPasswords = None, kb_nToUnlock = None, kb_lastMetadata = None,
       sjcl = lib, entropy = rnd, entropy_pos = 0, calls = [] \<rparr>"

text \<open>A stateful operation returns its result, or the exception it throws, with the
  state it leaves behind.\<close>

type_synonym 'a outcome = "(error + 'a) \<times> kbstate"

section \<open>kb-noble.js\<close>

definition getRandomBytes :: "kbstate \<Rightarrow> nat \<Rightarrow> byte list \<times> kbstate" where
  "getRandomBytes s cnt =
     (map (entropy s) [entropy_pos s ..< entropy_pos s + cnt],
      s\<lparr>entropy_pos := entropy_pos s + cnt\<rparr>)"

text \<open>One element of \<open>new Uint32Array(bytes.buffer)\<close> (little-endian).\<close>

definition u32 :: "byte list \<Rightarrow> nat" where
  "u32 bs = foldr (\<lambda>b acc. unat b + 256 * acc) bs 0"

text \<open>The rejection loop \<open>while (value >= maxValid)\<close>; \<open>None\<close> when it never ends.\<close>

partial_function (option) resample :: "kbstate \<Rightarrow> nat \<Rightarrow> nat \<Rightarrow> (nat \<times> kbstate) option" where
  "resample s maxValid val =
     (if maxValid \<le> val
      then resample (snd (getRandomBytes s 4)) maxValid (u32 (fst (getRandomBytes s 4)))
      else Some (val, s))"

declare resample.simps [code]

fun randomIntegers_loop ::
  "kbstate \<Rightarrow> nat \<Rightarrow> nat \<Rightarrow> nat list \<Rightarrow> (nat option list \<times> kbstate) option" where
  "randomIntegers_loop s maxValid mx [] = Some ([], s)"
| "randomIntegers_loop s maxValid mx (val # rest) =
     (case resample s maxValid val of
        None \<Rightarrow> None
      | Some (x, s') \<Rightarrow>
          (case randomIntegers_loop s' maxValid mx rest of
             None \<Rightarrow> None
           | Some (xs, s'') \<Rightarrow> Some (Some (x mod mx) # xs, s'')))"

text \<open>
  With \<open>max = 0\<close> the bound \<open>maxValid\<close> is \<open>NaN\<close>, no comparison with it holds and every
  result \<open>value % 0\<close> is \<open>NaN\<close>, written \<open>None\<close>.
\<close>

definition randomIntegers :: "kbstate \<Rightarrow> nat \<Rightarrow> nat \<Rightarrow> (nat option list \<times> kbstate) option" where
  "randomIntegers s mx cnt =
     (let randomBytes = fst (getRandomBytes s (cnt * 4));
          s1 = snd (getRandomBytes s (cnt * 4));
          randomInts = map (\<lambda>i. u32 (take 4 (drop (4 * i) randomBytes))) [0 ..< cnt]
      in if mx = 0 then Some (replicate cnt None, s1)
         else randomIntegers_loop s1 (4294967295 div mx * mx) mx randomInts)"

definition deriveKeyFromPassword ::
  "'j library \<Rightarrow> jsstring \<Rightarrow> buf \<Rightarrow> int \<Rightarrow> nat \<Rightarrow> error + byte list" where
  "deriveKeyFromPassword E password slt iterations keyLength =
     pbkdf2_sha256 E (utf8_encode E password) slt iterations keyLength"

definition encryptChaCha20Poly1305 ::
  "'j library \<Rightarrow> kbstate \<Rightarrow> buf \<Rightarrow> buf \<Rightarrow> buf \<Rightarrow> buf \<Rightarrow> (byte list \<times> buf) outcome" where
  "encryptChaCha20Poly1305 E s k plaintext nonce aad =
     (let nonce' = (if nonce = Null then U8 (fst (getRandomBytes s 12)) else nonce);
          s1 = (if nonce = Null then snd (getRandomBytes s 12) else s);
          s2 = s1\<lparr>calls := calls s1 @ [Seal k nonce' plaintext]\<rparr>
      in case chacha_encrypt E k nonce' aad plaintext of
           Inl e \<Rightarrow> (Inl e, s2)
         | Inr ciphertext \<Rightarrow> (Inr (ciphertext, nonce'), s2))"

definition decryptChaCha20Poly1305 ::
  "'j library \<Rightarrow> kbstate \<Rightarrow> buf \<Rightarrow> buf \<Rightarrow> buf \<Rightarrow> buf \<Rightarrow> (byte list) outcome" where
  "decryptChaCha20Poly1305 E s k ciphertext nonce aad =
     (chacha_decrypt E k nonce aad ciphertext,
      s\<lparr>calls := calls s @ [Open k nonce ciphertext]\<rparr>)"

text \<open>
  \<open>Array.from(x, byte => String.fromCharCode(byte)).join('')\<close>, then \<open>btoa\<close>.
  \<open>Array.from(null)\<close> throws; \<open>String.fromCharCode\<close> keeps the low 16 bits.
\<close>

definition encodeBase64 :: "'j library \<Rightarrow> buf \<Rightarrow> error + jsstring" where
  "encodeBase64 E b =
     (case b of
        Null \<Rightarrow> Inl TypeError
      | U8 bytes \<Rightarrow> btoa E (map ucast bytes)
      | Bits ws \<Rightarrow> btoa E (map word_of_int ws))"

definition decodeBase64 :: "'j library \<Rightarrow> jsstring \<Rightarrow> error + buf" where
  "decodeBase64 E base64str =
     (case atob E base64str of
        Inl e \<Rightarrow> Inl e
      | Inr binaryString \<Rightarrow> Inr (U8 (map ucast binaryString)))"

section \<open>kb-legacy.js\<close>

text \<open>
  \<open>bitArrayToBytes\<close>: \<open>bl / 8\<close> iterations rounded up; \<open>tmp >>> 24\<close> and \<open>tmp <<= 8\<close> work
  on the low 32 bits; reading past the end of the array gives \<open>undefined\<close>, which
  both operators take as 0.
\<close>

fun bitArrayToBytes_loop :: "int list \<Rightarrow> nat \<Rightarrow> nat \<Rightarrow> 32 word \<Rightarrow> byte list" where
  "bitArrayToBytes_loop bitArray 0 i tmp = []"
| "bitArrayToBytes_loop bitArray (Suc n) i tmp =
     (let tmp' = (if i mod 4 = 0
                  then (if i div 4 < length bitArray then word_of_int (bitArray ! (i div 4)) else 0)
                  else tmp)
      in ucast (drop_bit 24 tmp') # bitArrayToBytes_loop bitArray n (i + 1) (push_bit 8 tmp'))"

definition bitArrayToBytes :: "sjcl_lib \<Rightarrow> int list \<Rightarrow> byte list" where
  "bitArrayToBytes L bitArray =
     bitArrayToBytes_loop bitArray ((sjcl_bitLength L bitArray + 7) div 8) 0 0"

definition decryptLegacy :: "sjcl_lib \<Rightarrow> buf cipherobj \<Rightarrow> buf \<Rightarrow> error + byte list" where
  "decryptLegacy L cipherobj k =
     (case sjcl_decrypt L (cipher cipherobj) (mode cipherobj) k (ct cipherobj) (iv cipherobj)
             (adata cipherobj) (ts cipherobj) of
        Inl e \<Rightarrow> Inl e
      | Inr plaintext \<Rightarrow> Inr (bitArrayToBytes L plaintext))"

text \<open>
  \<open>decryptKeyLegacy\<close> has the whole call inside \<open>try\<close>, the reference to the global
  \<open>sjcl\<close> included: every exception gives \<open>null\<close>, here \<open>None\<close>.
\<close>

definition decryptKeyLegacy ::
  "sjcl_lib option \<Rightarrow> buf cipherobj \<Rightarrow> buf \<Rightarrow> buf keyiv \<Rightarrow> int list option" where
  "decryptKeyLegacy lib cipherobj k keyiv =
     (case lib of
        None \<Rightarrow> None
      | Some L \<Rightarrow>
          (case sjcl_decrypt L (cipher cipherobj) (mode cipherobj) k (kkey keyiv) (kiv keyiv)
                  (adata cipherobj) (ts cipherobj) of
             Inl e \<Rightarrow> None
           | Inr master \<Rightarrow> Some master))"

definition deriveKeyLegacy ::
  "sjcl_lib \<Rightarrow> jsstring \<Rightarrow> buf \<Rightarrow> int \<Rightarrow> int \<Rightarrow> error + int list" where
  "deriveKeyLegacy L password slt iterations keyBits = sjcl_pbkdf2 L password slt iterations keyBits"

definition isLegacyFormat :: "'a cipherobj \<Rightarrow> bool" where
  "isLegacyFormat cipherobj =
     (falsy (v cipherobj) \<or> v cipherobj = JNum 1 \<or>
      mode cipherobj = js ''ccm'' \<or> mode cipherobj = js ''ocb2'')"

section \<open>kb.js\<close>

subsection \<open>Strings\<close>

text \<open>The code units that \<open>\s\<close> matches.\<close>

definition is_ws :: "16 word \<Rightarrow> bool" where
  "is_ws c = (c \<in> {0x09, 0x0A, 0x0B, 0x0C, 0x0D, 0x20, 0xA0, 0x1680, 0x2028, 0x2029,
                   0x202F, 0x205F, 0x3000, 0xFEFF} \<or> (0x2000 \<le> c \<and> c \<le> 0x200A))"

text \<open>\<open>replace(/\s+/g, ' ')\<close>: every maximal run of white space becomes one space.\<close>

function collapse_ws :: "jsstring \<Rightarrow> jsstring" where
  "collapse_ws [] = []"
| "collapse_ws (c # cs) =
     (if is_ws c then 0x20 # collapse_ws (dropWhile is_ws cs) else c # collapse_ws cs)"
  by pat_completeness auto
termination
  by (relation "measure length") (auto simp: length_dropWhile_le less_Suc_eq_le)

text \<open>
  \<open>replace(/(^\s|\s$)/g, '')\<close>: one white-space unit at the start is removed, and one at
  the end of what is left.
\<close>

definition strip_ends :: "jsstring \<Rightarrow> jsstring" where
  "strip_ends s =
     (let s1 = (case s of [] \<Rightarrow> [] | c # cs \<Rightarrow> if is_ws c then cs else s)
      in if s1 \<noteq> [] \<and> is_ws (last s1) then butlast s1 else s1)"

definition normalizeString :: "jsstring \<Rightarrow> jsstring" where
  "normalizeString string = strip_ends (collapse_ws string)"

text \<open>\<open>[prefix, password].join(' ')\<close>: \<open>join\<close> writes \<open>null\<close> as the empty string.\<close>

definition join_prefix :: "jsstring option \<Rightarrow> jsstring \<Rightarrow> jsstring" where
  "join_prefix pfx password =
     (case pfx of None \<Rightarrow> [] | Some p \<Rightarrow> p) @ [0x20] @ password"

text \<open>\<open>prefix.replace(/ /, '')\<close> removes the first space; on \<open>null\<close> it throws.\<close>

definition remove_first_space :: "jsstring option \<Rightarrow> error + jsstring" where
  "remove_first_space pfx =
     (case pfx of None \<Rightarrow> Inl TypeError | Some p \<Rightarrow> Inr (remove1 0x20 p))"

subsection \<open>Combinations\<close>

text \<open>
  The local function \<open>combine\<close> of \<open>makeCombinedPasswords\<close> and its \<open>for\<close> loop, which
  runs from \<open>i\<close>. The array \<open>output\<close> is passed through.
\<close>

function combine ::
    "jsstring list \<Rightarrow> jsstring list \<Rightarrow> jsstring option \<Rightarrow> int \<Rightarrow> nat \<Rightarrow> error + jsstring list"
  and combine_loop ::
    "jsstring list \<Rightarrow> jsstring list \<Rightarrow> jsstring option \<Rightarrow> int \<Rightarrow> nat \<Rightarrow> error + jsstring list"
where
  "combine passwords output pfx levels_left start =
     (if levels_left \<le> 0
      then (case remove_first_space pfx of
              Inl e \<Rightarrow> Inl e
            | Inr c \<Rightarrow> Inr (output @ [c]))
      else combine_loop passwords output pfx levels_left start)"
| "combine_loop passwords output pfx levels_left i =
     (if i < length passwords
      then (case combine passwords output (Some (join_prefix pfx (passwords ! i)))
                   (levels_left - 1) (i + 1) of
              Inl e \<Rightarrow> Inl e
            | Inr output' \<Rightarrow> combine_loop passwords output' pfx levels_left (i + 1))
      else Inr output)"
  by pat_completeness auto
termination
  by (relation "measure (\<lambda>x. case x of
          Inl (passwords, output, pfx, levels_left, start) \<Rightarrow> 2 * (length passwords - start) + 1
        | Inr (passwords, output, pfx, levels_left, i) \<Rightarrow> 2 * (length passwords - i))")
     auto

text \<open>
  \<open>makeCombinedPasswords\<close> normalises each password, sorts the array and enumerates.
  It records \<open>passwords.length\<close> and \<open>nToUnlock\<close> on the way.
\<close>

definition makeCombinedPasswords ::
  "kbstate \<Rightarrow> jsstring list \<Rightarrow> int option \<Rightarrow> (jsstring list) outcome" where
  "makeCombinedPasswords s passwords nToUnlock =
     (let s1 = s\<lparr>kb_nPasswords := Some (int (length passwords)), kb_nToUnlock := nToUnlock\<rparr>
      in (combine (sort (map normalizeString passwords)) [] None (to_num nToUnlock) 0, s1))"

subsection \<open>Keys\<close>

definition randto :: "kbstate \<Rightarrow> nat \<Rightarrow> nat \<Rightarrow> (nat option list \<times> kbstate) option" where
  "randto s e num = randomIntegers s e num"

definition makeSalt :: "kbstate \<Rightarrow> kbstate" where
  "makeSalt s =
     (snd (getRandomBytes s (salt_length s)))\<lparr>kb_salt := U8 (fst (getRandomBytes s (salt_length s)))\<rparr>"

text \<open>
  \<open>makeKeyFromPassword\<close> takes SJCL when the global is defined and the salt is a plain
  array (\<open>Array.isArray\<close> is false for \<open>null\<close> and for a \<open>Uint8Array\<close>), Noble
  otherwise.
\<close>

definition makeKeyFromPassword :: "'j library \<Rightarrow> kbstate \<Rightarrow> jsstring \<Rightarrow> buf outcome" where
  "makeKeyFromPassword E s password =
     (let s1 = s\<lparr>calls := calls s @ [Derive password]\<rparr>;
          viaNoble = (case deriveKeyFromPassword E password (kb_salt s) (pbkdf2_iterations s)
                             (aes_key_strength s) of
                        Inl e \<Rightarrow> (Inl e, s1)
                      | Inr k \<Rightarrow> (Inr (U8 k), s1))
      in case sjcl s of
           None \<Rightarrow> viaNoble
         | Some L \<Rightarrow>
             (case kb_salt s of
                Bits ws \<Rightarrow>
                  (case deriveKeyLegacy L password (kb_salt s) (pbkdf2_iterations s)
                          (int (aes_key_strength s) * 8) of
                     Inl e \<Rightarrow> (Inl e, s1)
                   | Inr k \<Rightarrow> (Inr (Bits k), s1))
              | _ \<Rightarrow> viaNoble))"

text \<open>
  \<open>makeKeyCombinations\<close>: the progress callback only observes and is left out. Every
  derived key is pushed on \<open>_keys\<close> as soon as it is made.
\<close>

fun makeKeyCombinations_loop :: "'j library \<Rightarrow> kbstate \<Rightarrow> jsstring list \<Rightarrow> (buf list) outcome" where
  "makeKeyCombinations_loop E s [] = (Inr (kb_keys s), s)"
| "makeKeyCombinations_loop E s (c # rest) =
     (case makeKeyFromPassword E s c of
        (Inl e, s') \<Rightarrow> (Inl e, s')
      | (Inr k, s') \<Rightarrow> makeKeyCombinations_loop E (s'\<lparr>kb_keys := kb_keys s' @ [k]\<rparr>) rest)"

definition makeKeyCombinations ::
  "'j library \<Rightarrow> kbstate \<Rightarrow> jsstring list \<Rightarrow> int option \<Rightarrow> (buf list) outcome" where
  "makeKeyCombinations E s passwords nToUnlock =
     (case makeCombinedPasswords (s\<lparr>kb_keys := []\<rparr>) passwords nToUnlock of
        (Inl e, s1) \<Rightarrow> (Inl e, s1)
      | (Inr combinations, s1) \<Rightarrow> makeKeyCombinations_loop E s1 combinations)"

definition makeAESKey :: "kbstate \<Rightarrow> kbstate" where
  "makeAESKey s =
     (snd (getRandomBytes s (aes_key_strength s)))
       \<lparr>kb_master := U8 (fst (getRandomBytes s (aes_key_strength s)))\<rparr>"

definition makeMetadataObject :: "kbstate \<Rightarrow> buf cipherobj \<times> kbstate" where
  "makeMetadataObject s =
     (\<lparr> adata = [], iter = pbkdf2_iterations s, mode = aes_cipher_mode s,
        cipher = js ''chacha20'', ts = 128, ks = int (aes_key_strength s) * 8,
        salt = kb_salt s, iv = U8 (fst (getRandomBytes s 12)), v = JNum 2, ct = Null,
        fn = kb_filename s, ft = kb_filetype s,
        nkeys = kb_nPasswords s, nunlock = kb_nToUnlock s, keys = [] \<rparr>,
      snd (getRandomBytes s 12))"

subsection \<open>Recovering the master key\<close>

text \<open>
  The inner loop of \<open>decryptKeys\<close> over the wrapped keys, for one derived key: an open
  that throws is caught and the loop goes on; the first one that returns assigns
  \<open>_master\<close> and leaves both loops.
\<close>

fun decryptKeys_inner :: "'j library \<Rightarrow> kbstate \<Rightarrow> buf \<Rightarrow> buf keyiv list \<Rightarrow> bool \<times> kbstate" where
  "decryptKeys_inner E s k [] = (False, s)"
| "decryptKeys_inner E s k (keyiv # rest) =
     (case decryptChaCha20Poly1305 E s k (kkey keyiv) (kiv keyiv) (U8 []) of
        (Inr m, s') \<Rightarrow> (True, s'\<lparr>kb_master := U8 m\<rparr>)
      | (Inl e, s') \<Rightarrow> decryptKeys_inner E s' k rest)"

text \<open>The outer loop; \<open>_cipherobj.keys\<close> on \<open>null\<close> throws.\<close>

fun decryptKeys_outer :: "'j library \<Rightarrow> kbstate \<Rightarrow> buf list \<Rightarrow> bool outcome" where
  "decryptKeys_outer E s [] = (Inr False, s)"
| "decryptKeys_outer E s (k # rest) =
     (case kb_cipherobj s of
        None \<Rightarrow> (Inl TypeError, s)
      | Some c \<Rightarrow>
          (case decryptKeys_inner E s k (keys c) of
             (True, s') \<Rightarrow> (Inr True, s')
           | (False, s') \<Rightarrow> decryptKeys_outer E s' rest))"

fun decryptKeysLegacy_inner :: "kbstate \<Rightarrow> buf cipherobj \<Rightarrow> buf \<Rightarrow> buf keyiv list \<Rightarrow> bool \<times> kbstate" where
  "decryptKeysLegacy_inner s c k [] = (False, s)"
| "decryptKeysLegacy_inner s c k (keyiv # rest) =
     (let s' = (case sjcl s of
                  None \<Rightarrow> s
                | Some L \<Rightarrow> s\<lparr>calls := calls s @ [Open k (kiv keyiv) (kkey keyiv)]\<rparr>)
      in case decryptKeyLegacy (sjcl s) c k keyiv of
           Some master \<Rightarrow> (True, s'\<lparr>kb_master := Bits master\<rparr>)
         | None \<Rightarrow> decryptKeysLegacy_inner s' c k rest)"

fun decryptKeysLegacy_outer :: "kbstate \<Rightarrow> buf list \<Rightarrow> bool outcome" where
  "decryptKeysLegacy_outer s [] = (Inr False, s)"
| "decryptKeysLegacy_outer s (k # rest) =
     (case kb_cipherobj s of
        None \<Rightarrow> (Inl TypeError, s)
      | Some c \<Rightarrow>
          (case decryptKeysLegacy_inner s c k (keys c) of
             (True, s') \<Rightarrow> (Inr True, s')
           | (False, s') \<Rightarrow> decryptKeysLegacy_outer s' rest))"

definition decryptKeysLegacy :: "kbstate \<Rightarrow> bool outcome" where
  "decryptKeysLegacy s = decryptKeysLegacy_outer s (kb_keys s)"

text \<open>\<open>typeof sjcl !== 'undefined' && legacy.isLegacyFormat(keybearer._cipherobj)\<close>;
  \<open>isLegacyFormat(null)\<close> throws.\<close>

definition decryptKeys :: "'j library \<Rightarrow> kbstate \<Rightarrow> bool outcome" where
  "decryptKeys E s =
     (case sjcl s of
        None \<Rightarrow> decryptKeys_outer E s (kb_keys s)
      | Some L \<Rightarrow>
          (case kb_cipherobj s of
             None \<Rightarrow> (Inl TypeError, s)
           | Some c \<Rightarrow>
               if isLegacyFormat c then decryptKeysLegacy s
               else decryptKeys_outer E s (kb_keys s)))"

definition decryptCiphertext :: "'j library \<Rightarrow> kbstate \<Rightarrow> unit outcome" where
  "decryptCiphertext E s =
     (case kb_cipherobj s of
        None \<Rightarrow> (Inl TypeError, s)
      | Some c \<Rightarrow>
          (case sjcl s of
             Some L \<Rightarrow>
               if isLegacyFormat c
               then (let s' = s\<lparr>calls := calls s @ [Open (kb_master s) (iv c) (ct c)]\<rparr>
                     in case decryptLegacy L c (kb_master s) of
                          Inl e \<Rightarrow> (Inl e, s')
                        | Inr p \<Rightarrow> (Inr (), s'\<lparr>kb_plaintext := U8 p\<rparr>))
               else (case decryptChaCha20Poly1305 E s (kb_master s) (ct c) (iv c) (U8 []) of
                       (Inl e, s') \<Rightarrow> (Inl e, s')
                     | (Inr p, s') \<Rightarrow> (Inr (), s'\<lparr>kb_plaintext := U8 p\<rparr>))
           | None \<Rightarrow>
               (case decryptChaCha20Poly1305 E s (kb_master s) (ct c) (iv c) (U8 []) of
                  (Inl e, s') \<Rightarrow> (Inl e, s')
                | (Inr p, s') \<Rightarrow> (Inr (), s'\<lparr>kb_plaintext := U8 p\<rparr>))))"

subsection \<open>Building the envelope\<close>

text \<open>
  \<open>shuffle\<close>: \<open>while (--i)\<close> runs the body for \<open>i = length - 1\<close> down to \<open>1\<close>, each time
  with \<open>j = randto(i + 1, 1)[0]\<close>. The result is the array after the call; \<open>None\<close>
  when a rejection loop of \<open>randomIntegers\<close> never ends. The bound \<open>i + 1\<close> is
  positive, so \<open>randto\<close>, when it returns, returns one number below it (lemma
  \<open>randto_shape\<close>) and the last case never applies.
\<close>

fun shuffle_loop :: "kbstate \<Rightarrow> 'a list \<Rightarrow> nat \<Rightarrow> ('a list \<times> kbstate) option" where
  "shuffle_loop s arr 0 = Some (arr, s)"
| "shuffle_loop s arr (Suc i') =
     (let i = Suc i' in
      case randto s (i + 1) 1 of
        None \<Rightarrow> None
      | Some ([Some j], s') \<Rightarrow> shuffle_loop s' (arr[i := arr ! j, j := arr ! i]) i'
      | Some (_, s') \<Rightarrow> shuffle_loop s' arr i')"

definition shuffle :: "kbstate \<Rightarrow> 'a list \<Rightarrow> ('a list \<times> kbstate) option" where
  "shuffle s arr = (if length arr = 0 then Some (arr, s) else shuffle_loop s arr (length arr - 1))"

fun augmentWithEncryptedKeys_loop ::
  "'j library \<Rightarrow> kbstate \<Rightarrow> buf list \<Rightarrow> buf keyiv list \<Rightarrow> (buf keyiv list) outcome" where
  "augmentWithEncryptedKeys_loop E s [] encKeys = (Inr encKeys, s)"
| "augmentWithEncryptedKeys_loop E s (k # rest) encKeys =
     (let nonce = fst (getRandomBytes s 12); s1 = snd (getRandomBytes s 12)
      in case encryptChaCha20Poly1305 E s1 k (kb_master s1) (U8 nonce) (U8 []) of
           (Inl e, s2) \<Rightarrow> (Inl e, s2)
         | (Inr (ciphertext, nonce'), s2) \<Rightarrow>
             augmentWithEncryptedKeys_loop E s2 rest
               (encKeys @ [\<lparr>kiv = nonce', kkey = U8 ciphertext\<rparr>]))"

text \<open>
  \<open>augmentWithEncryptedKeys(obj)\<close> returns the object it was given, with \<open>keys\<close> set;
  the caller holds it as \<open>_cipherobj\<close> and stores it back.
\<close>

definition augmentWithEncryptedKeys ::
  "'j library \<Rightarrow> kbstate \<Rightarrow> buf cipherobj \<Rightarrow> ((buf cipherobj) outcome) option" where
  "augmentWithEncryptedKeys E s obj =
     (case augmentWithEncryptedKeys_loop E s (kb_keys s) [] of
        (Inl e, s1) \<Rightarrow> Some (Inl e, s1)
      | (Inr encKeys, s1) \<Rightarrow>
          (case shuffle s1 encKeys of
             None \<Rightarrow> None
           | Some (arr, s2) \<Rightarrow> Some (Inr (obj\<lparr>keys := arr\<rparr>), s2)))"

fun encodeKeys :: "'j library \<Rightarrow> buf keyiv list \<Rightarrow> error + jsstring keyiv list" where
  "encodeKeys E [] = Inr []"
| "encodeKeys E (keyiv # rest) =
     (case encodeBase64 E (kiv keyiv) of
        Inl e \<Rightarrow> Inl e
      | Inr i64 \<Rightarrow>
          (case encodeBase64 E (kkey keyiv) of
             Inl e \<Rightarrow> Inl e
           | Inr k64 \<Rightarrow>
               (case encodeKeys E rest of
                  Inl e \<Rightarrow> Inl e
                | Inr out \<Rightarrow> Inr (\<lparr>kiv = i64, kkey = k64\<rparr> # out))))"

definition getCipherJSON :: "'j library \<Rightarrow> kbstate \<Rightarrow> 'j outcome" where
  "getCipherJSON E s =
     (case kb_cipherobj s of
        None \<Rightarrow> (Inl TypeError, s)
      | Some c \<Rightarrow>
          (case encodeBase64 E (salt c) of
             Inl e \<Rightarrow> (Inl e, s)
           | Inr salt64 \<Rightarrow>
          (case encodeBase64 E (iv c) of
             Inl e \<Rightarrow> (Inl e, s)
           | Inr iv64 \<Rightarrow>
          (case encodeBase64 E (ct c) of
             Inl e \<Rightarrow> (Inl e, s)
           | Inr ct64 \<Rightarrow>
          (case encodeKeys E (keys c) of
             Inl e \<Rightarrow> (Inl e, s)
           | Inr keys64 \<Rightarrow>
               (Inr (json_stringify E
                  \<lparr> adata = adata c, iter = iter c, mode = mode c, cipher = cipher c,
                    ts = ts c, ks = ks c, salt = salt64, iv = iv64, v = v c, ct = ct64,
                    fn = fn c, ft = ft c, nkeys = nkeys c, nunlock = nunlock c,
                    keys = keys64 \<rparr>), s))))))"

text \<open>
  \<open>encryptPlaintext\<close>: the metadata object \<open>p\<close> is held as \<open>_lastMetadata\<close> and, once
  the payload is sealed, as \<open>_cipherobj\<close> too; both names follow its updates.
  \<open>pt || keybearer._plaintext\<close> takes the second operand when \<open>pt\<close> is \<open>null\<close>.
\<close>

definition encryptPlaintext :: "'j library \<Rightarrow> kbstate \<Rightarrow> buf \<Rightarrow> ('j outcome) option" where
  "encryptPlaintext E s pt =
     (let p = fst (makeMetadataObject s);
          s1 = snd (makeMetadataObject s);
          ptxt = (if pt = Null then kb_plaintext s1 else pt);
          s2 = s1\<lparr>kb_lastMetadata := Some p\<rparr>
      in case encryptChaCha20Poly1305 E s2 (kb_master s2) ptxt (iv p) (U8 []) of
           (Inl e, s3) \<Rightarrow> Some (Inl e, s3)
         | (Inr (ciphertext, nonce), s3) \<Rightarrow>
             (let p' = p\<lparr>ct := U8 ciphertext, iv := nonce\<rparr>;
                  s4 = s3\<lparr>kb_lastMetadata := Some p', kb_cipherobj := Some p'\<rparr>
              in case augmentWithEncryptedKeys E s4 p' of
                   None \<Rightarrow> None
                 | Some (Inl e, s5) \<Rightarrow> Some (Inl e, s5)
                 | Some (Inr p'', s5) \<Rightarrow>
                     Some (getCipherJSON E
                             (s5\<lparr>kb_lastMetadata := Some p'', kb_cipherobj := Some p''\<rparr>))))"

definition encryptWithPasswords ::
  "'j library \<Rightarrow> kbstate \<Rightarrow> jsstring list \<Rightarrow> int option \<Rightarrow> ('j outcome) option" where
  "encryptWithPasswords E s passwords nUnlock =
     (case makeKeyCombinations E s passwords nUnlock of
        (Inl e, s1) \<Rightarrow> Some (Inl e, s1)
      | (Inr ignored, s1) \<Rightarrow> encryptPlaintext E (makeAESKey s1) (kb_plaintext (makeAESKey s1)))"

subsection \<open>Setters and the parser\<close>

definition setFileName :: "kbstate \<Rightarrow> jsstring option \<Rightarrow> kbstate" where
  "setFileName s fname = s\<lparr>kb_filename := fname\<rparr>"

definition setFileType :: "kbstate \<Rightarrow> jsstring option \<Rightarrow> kbstate" where
  "setFileType s ftype = s\<lparr>kb_filetype := ftype\<rparr>"

definition setPBKDF2Iterations :: "kbstate \<Rightarrow> int \<Rightarrow> kbstate" where
  "setPBKDF2Iterations s num = s\<lparr>pbkdf2_iterations := num\<rparr>"

text \<open>\<open>setPlaintext\<close>: \<open>if (fn)\<close> and \<open>if (ft)\<close> skip \<open>null\<close> and the empty string.\<close>

definition setPlaintext :: "kbstate \<Rightarrow> byte list \<Rightarrow> jsstring option \<Rightarrow> jsstring option \<Rightarrow> kbstate" where
  "setPlaintext s dat fname ftype =
     (let s1 = s\<lparr>kb_plaintext := U8 dat\<rparr>;
          s2 = (if fname \<noteq> None \<and> fname \<noteq> Some [] then setFileName s1 fname else s1)
      in if ftype \<noteq> None \<and> ftype \<noteq> Some [] then setFileType s2 ftype else s2)"

text \<open>
  The two branches of \<open>setCipherJSON\<close> decode the same five kinds of field, with
  \<open>sjcl.codec.base64.toBits\<close> or with \<open>noble.decodeBase64\<close>; \<open>decodeFields\<close> is that
  sequence for a given decoder.
\<close>

fun decodeKeys :: "(jsstring \<Rightarrow> error + buf) \<Rightarrow> jsstring keyiv list \<Rightarrow> error + buf keyiv list" where
  "decodeKeys dec [] = Inr []"
| "decodeKeys dec (keyiv # rest) =
     (case dec (kiv keyiv) of
        Inl e \<Rightarrow> Inl e
      | Inr i \<Rightarrow>
          (case dec (kkey keyiv) of
             Inl e \<Rightarrow> Inl e
           | Inr k \<Rightarrow>
               (case decodeKeys dec rest of
                  Inl e \<Rightarrow> Inl e
                | Inr out \<Rightarrow> Inr (\<lparr>kiv = i, kkey = k\<rparr> # out))))"

definition decodeFields ::
  "(jsstring \<Rightarrow> error + buf) \<Rightarrow> jsstring cipherobj \<Rightarrow> error + buf cipherobj" where
  "decodeFields dec obj =
     (case dec (salt obj) of
        Inl e \<Rightarrow> Inl e
      | Inr salt' \<Rightarrow>
     (case dec (iv obj) of
        Inl e \<Rightarrow> Inl e
      | Inr iv' \<Rightarrow>
     (case dec (ct obj) of
        Inl e \<Rightarrow> Inl e
      | Inr ct' \<Rightarrow>
     (case decodeKeys dec (keys obj) of
        Inl e \<Rightarrow> Inl e
      | Inr keys' \<Rightarrow>
          Inr \<lparr> adata = adata obj, iter = iter obj, mode = mode obj, cipher = cipher obj,
                ts = ts obj, ks = ks obj, salt = salt', iv = iv', v = v obj, ct = ct',
                fn = fn obj, ft = ft obj, nkeys = nkeys obj, nunlock = nunlock obj,
                keys = keys' \<rparr>))))"

definition setCipherJSON :: "'j library \<Rightarrow> kbstate \<Rightarrow> 'j \<Rightarrow> unit outcome" where
  "setCipherJSON E s dat =
     (case json_parse E dat of
        Inl e \<Rightarrow> (Inl e, s)
      | Inr obj \<Rightarrow>
          (let decoded =
                 (if isLegacyFormat obj
                  then (case sjcl s of
                          None \<Rightarrow> Inl ReferenceError
                        | Some L \<Rightarrow> decodeFields (\<lambda>x. map_sum id Bits (sjcl_toBits L x)) obj)
                  else decodeFields (decodeBase64 E) obj)
           in case decoded of
                Inl e \<Rightarrow> (Inl e, s)
              | Inr obj' \<Rightarrow>
                  (Inr (),
                   (setPBKDF2Iterations
                      (setFileType
                         (setFileName
                            (s\<lparr>kb_salt := salt obj', kb_nPasswords := nkeys obj',
                               kb_nToUnlock := nunlock obj'\<rparr>)
                            (fn obj'))
                         (ft obj'))
                      (iter obj'))\<lparr>kb_cipherobj := Some obj'\<rparr>)))"

definition getPlaintext :: "kbstate \<Rightarrow> buf" where
  "getPlaintext s = kb_plaintext s"

definition getNumToUnlock :: "kbstate \<Rightarrow> int option" where
  "getNumToUnlock s = kb_nToUnlock s"

definition isCipherObjectReady :: "kbstate \<Rightarrow> bool" where
  "isCipherObjectReady s = (kb_cipherobj s \<noteq> None)"

section \<open>kbpage-v2.js: the decryption form\<close>

text \<open>
  The form is the list of the values of the inputs \<open>#decpass0\<close>, \<open>#decpass1\<close>, ...; reading
  an input that does not exist gives \<open>undefined\<close>, on which \<open>normalizeString\<close> throws.
  An \<open>alert\<close> is recorded by its kind. The classes of the labels and the download
  link are display only and are left out; \<open>decrypt\<close> returns the bytes it would offer
  for download.
\<close>

datatype alert = MustLoadFile | AtLeastPasscodes "int option" | CouldNotDecode | ErrorDecrypting error

fun getMDecPass_collect :: "jsstring list \<Rightarrow> nat \<Rightarrow> nat \<Rightarrow> jsstring list \<Rightarrow> error + jsstring list" where
  "getMDecPass_collect form i 0 passwords = Inr passwords"
| "getMDecPass_collect form i (Suc r) passwords =
     (if i < length form
      then (let s = normalizeString (form ! i)
            in getMDecPass_collect form (i + 1) r
                 (if length s > 0 then passwords @ [s] else passwords))
      else Inl TypeError)"

text \<open>\<open>passwords.slice(0, m)\<close>; a negative \<open>m\<close> counts from the end.\<close>

definition slice0 :: "'a list \<Rightarrow> int \<Rightarrow> 'a list" where
  "slice0 arr m = (if 0 \<le> m then take (nat m) arr else take (nat (int (length arr) + m)) arr)"

definition getMDecPass ::
  "kbstate \<Rightarrow> jsstring list \<Rightarrow> int option \<Rightarrow> int option
     \<Rightarrow> ((error + jsstring list) \<times> alert list \<times> kbstate) option" where
  "getMDecPass s form n m =
     (case getMDecPass_collect form 0 (nat (to_num n)) [] of
        Inl e \<Rightarrow> Some (Inl e, [], s)
      | Inr passwords \<Rightarrow>
          if int (length passwords) < to_num m
          then Some (Inr passwords, [AtLeastPasscodes m], s)
          else (case shuffle s passwords of
                  None \<Rightarrow> None
                | Some (arr, s') \<Rightarrow> Some (Inr (sort (slice0 arr (to_num m))), [], s')))"

text \<open>
  \<open>kbp.decrypt\<close>: every exception inside \<open>try\<close> is reported with an alert and thrown
  again. The result is the exception, or the plaintext offered for download if any.
\<close>

definition decrypt ::
  "'j library \<Rightarrow> kbstate \<Rightarrow> jsstring list \<Rightarrow> ((error + buf option) \<times> alert list \<times> kbstate) option" where
  "decrypt E s form =
     (case kb_cipherobj s of
        None \<Rightarrow> Some (Inr None, [MustLoadFile], s)
      | Some c \<Rightarrow>
          (case getMDecPass s form (nkeys c) (getNumToUnlock s) of
             None \<Rightarrow> None
           | Some (Inl e, al, s1) \<Rightarrow> Some (Inl e, al @ [ErrorDecrypting e], s1)
           | Some (Inr passwords, al, s1) \<Rightarrow>
               (case makeKeyCombinations E s1 passwords (getNumToUnlock s) of
                  (Inl e, s2) \<Rightarrow> Some (Inl e, al @ [ErrorDecrypting e], s2)
                | (Inr ignored, s2) \<Rightarrow>
                    (case decryptKeys E s2 of
                       (Inl e, s3) \<Rightarrow> Some (Inl e, al @ [ErrorDecrypting e], s3)
                     | (Inr False, s3) \<Rightarrow> Some (Inr None, al @ [CouldNotDecode], s3)
                     | (Inr True, s3) \<Rightarrow>
                         (case decryptCiphertext E s3 of
                            (Inl e, s4) \<Rightarrow> Some (Inl e, al @ [ErrorDecrypting e], s4)
                          | (Inr u, s4) \<Rightarrow> Some (Inr (Some (getPlaintext s4)), al, s4))))))"

section \<open>test-e2e.mjs: the decryption steps\<close>

text \<open>
  Step 4 of the end-to-end test: \<open>setCipherJSON\<close>, \<open>makeKeyCombinations\<close> on the supplied
  passwords, \<open>decryptKeys\<close> (the test throws when it returns false), \<open>decryptCiphertext\<close>,
  \<open>getPlaintext\<close>.
\<close>

definition e2e_decrypt ::
  "'j library \<Rightarrow> kbstate \<Rightarrow> 'j \<Rightarrow> jsstring list \<Rightarrow> int option \<Rightarrow> buf outcome" where
  "e2e_decrypt E s encrypted passwords threshold =
     (case setCipherJSON E s encrypted of
        (Inl e, s1) \<Rightarrow> (Inl e, s1)
      | (Inr u, s1) \<Rightarrow>
          (case makeKeyCombinations E s1 passwords threshold of
             (Inl e, s2) \<Rightarrow> (Inl e, s2)
           | (Inr ignored, s2) \<Rightarrow>
               (case decryptKeys E s2 of
                  (Inl e, s3) \<Rightarrow> (Inl e, s3)
                | (Inr False, s3) \<Rightarrow> (Inl TestFailure, s3)
                | (Inr True, s3) \<Rightarrow>
                    (case decryptCiphertext E s3 of
                       (Inl e, s4) \<Rightarrow> (Inl e, s4)
                     | (Inr u', s4) \<Rightarrow> (Inr (getPlaintext s4), s4)))))"

section \<open>Vocabulary of the statements\<close>

subsection \<open>Enumerating combinations\<close>

text \<open>
  Three functions to state results with: the sublists of \<open>k\<close> elements of a list, in the
  order in which \<open>combine\<close> visits them; the string \<open>combine\<close> has built after
  choosing \<open>sub\<close> from a given prefix; and \<open>Array.prototype.join(' ')\<close>.
\<close>

fun choose_lists :: "nat \<Rightarrow> 'a list \<Rightarrow> 'a list list" where
  "choose_lists 0 xs = [[]]"
| "choose_lists (Suc k) [] = []"
| "choose_lists (Suc k) (x # xs) = map ((#) x) (choose_lists k xs) @ choose_lists (Suc k) xs"

definition joined :: "jsstring option \<Rightarrow> jsstring list \<Rightarrow> jsstring" where
  "joined pfx sub = foldl (\<lambda>acc x. acc @ [0x20] @ x) (case pfx of None \<Rightarrow> [] | Some p \<Rightarrow> p) sub"

fun space_join :: "jsstring list \<Rightarrow> jsstring" where
  "space_join [] = []"
| "space_join [x] = x"
| "space_join (x # y # r) = x @ [0x20] @ space_join (y # r)"

subsection \<open>The trial-decryption loop\<close>

text \<open>
  To state what the loop does: the result of opening one wrapped key with one derived
  key, whether it authenticates, the call it is recorded as, and the pairs the two
  loops run through, in their order.
\<close>

definition open_with :: "'j library \<Rightarrow> buf \<times> buf keyiv \<Rightarrow> error + byte list" where
  "open_with E t = chacha_decrypt E (fst t) (kiv (snd t)) (U8 []) (kkey (snd t))"

definition authenticates :: "'j library \<Rightarrow> buf \<times> buf keyiv \<Rightarrow> bool" where
  "authenticates E t = (case open_with E t of Inl e \<Rightarrow> False | Inr m \<Rightarrow> True)"

definition open_call :: "buf \<times> buf keyiv \<Rightarrow> call" where
  "open_call t = Open (fst t) (kiv (snd t)) (kkey (snd t))"

definition trials :: "kbstate \<Rightarrow> buf cipherobj \<Rightarrow> (buf \<times> buf keyiv) list" where
  "trials s c = List.product (kb_keys s) (keys c)"

text \<open>
  \<open>trial_open E s c t\<close> is the master key the loop obtains from the pair \<open>t\<close>, if any. With
  SJCL loaded and a legacy envelope \<open>decryptKeys\<close> hands over to \<open>decryptKeysLegacy\<close>, whose
  trial is the SJCL decryption with the cipher, mode, associated data and tag length of
  the envelope (\<open>open_with_legacy\<close>) and yields a bitArray; otherwise the trial is the
  AEAD open of \<open>kb-noble.js\<close> and yields a \<open>Uint8Array\<close>. A trial that throws yields
  nothing.
\<close>

definition open_with_legacy :: "sjcl_lib \<Rightarrow> buf cipherobj \<Rightarrow> buf \<times> buf keyiv \<Rightarrow> error + int list" where
  "open_with_legacy L c t =
     sjcl_decrypt L (cipher c) (mode c) (fst t) (kkey (snd t)) (kiv (snd t)) (adata c) (ts c)"

definition trial_open :: "'j library \<Rightarrow> kbstate \<Rightarrow> buf cipherobj \<Rightarrow> buf \<times> buf keyiv \<Rightarrow> buf option" where
  "trial_open E s c t =
     (case (sjcl s, isLegacyFormat c) of
        (Some L, True) \<Rightarrow> (case open_with_legacy L c t of Inl e \<Rightarrow> None | Inr m \<Rightarrow> Some (Bits m))
      | _ \<Rightarrow> (case open_with E t of Inl e \<Rightarrow> None | Inr m \<Rightarrow> Some (U8 m)))"

subsection \<open>The random source\<close>

text \<open>
  The rejection loop of \<open>randomIntegers\<close> ends when the random source delivers a word
  below \<open>maxValid\<close>. \<open>entropy_fair\<close> says that, from every position, some later
  aligned word of the source is below \<open>2^31\<close>; \<open>maxValid\<close> is at least \<open>2^31\<close>
  for every bound up to \<open>2^31\<close>.
\<close>

definition entropy_fair :: "(nat \<Rightarrow> byte) \<Rightarrow> bool" where
  "entropy_fair rnd = (\<forall>p. \<exists>k. u32 (map rnd [p + 4 * k ..< p + 4 * k + 4]) < 2147483648)"

subsection \<open>The contracts of the libraries\<close>

text \<open>
  What the round trip needs from the libraries. For 32-byte keys, 12-byte nonces and
  empty associated data, sealing succeeds and opening with the same key returns the
  plaintext (\<open>aead_correct\<close>); \<open>atob\<close> inverts \<open>btoa\<close> on byte strings; \<open>JSON.parse\<close>
  inverts \<open>JSON.stringify\<close>. \<open>dk\<close> is the derived key of a combination, \<open>b64\<close> the
  base64 text of a byte array, and \<open>wraps E mk k e\<close> says that the entry \<open>e\<close> is the
  master key \<open>mk\<close> sealed under \<open>k\<close> with a 12-byte nonce.

  Two conditions speak of one run only. \<open>kdf_returns E slt it cs\<close>: with the salt and
  the iteration count of the run, the key derivation returns 32 bytes for each of the
  combinations \<open>cs\<close>. \<open>opens_only_master E dks mk\<close>: among the derived keys \<open>dks\<close> of the
  run, whatever one of them opens of the master key \<open>mk\<close> of the run sealed under
  another is that master key; an AEAD whose tag check rejects the other derived keys of
  the run meets it, and so does a run in which two combinations derive the same key.
  (\<open>kdf_total\<close>, the key derivation returning 32 bytes on every input, is the stronger
  condition under which an envelope is returned for every list of passwords.)
\<close>

definition aead_correct :: "'j library \<Rightarrow> bool" where
  "aead_correct E = (\<forall>k n p. length k = 32 \<longrightarrow> length n = 12 \<longrightarrow>
      (\<exists>c. chacha_encrypt E (U8 k) (U8 n) (U8 []) (U8 p) = Inr c \<and>
           chacha_decrypt E (U8 k) (U8 n) (U8 []) (U8 c) = Inr p))"

definition kdf_total :: "'j library \<Rightarrow> bool" where
  "kdf_total E = (\<forall>pw slt c. \<exists>k. pbkdf2_sha256 E pw (U8 slt) c 32 = Inr k \<and> length k = 32)"

definition kdf_returns :: "'j library \<Rightarrow> byte list \<Rightarrow> int \<Rightarrow> jsstring list \<Rightarrow> bool" where
  "kdf_returns E slt it cs =
     (\<forall>c \<in> set cs. \<exists>k. pbkdf2_sha256 E (utf8_encode E c) (U8 slt) it 32 = Inr k \<and> length k = 32)"

definition base64_roundtrip :: "'j library \<Rightarrow> bool" where
  "base64_roundtrip E = (\<forall>bs :: byte list. \<exists>t. btoa E (map ucast bs) = Inr t \<and> atob E t = Inr (map ucast bs))"

definition json_roundtrip :: "'j library \<Rightarrow> bool" where
  "json_roundtrip E = (\<forall>obj. json_parse E (json_stringify E obj) = Inr obj)"

definition dk :: "'j library \<Rightarrow> byte list \<Rightarrow> int \<Rightarrow> jsstring \<Rightarrow> byte list" where
  "dk E slt it c = projr (pbkdf2_sha256 E (utf8_encode E c) (U8 slt) it 32)"

definition b64 :: "'j library \<Rightarrow> byte list \<Rightarrow> jsstring" where
  "b64 E bs = projr (btoa E (map ucast bs))"

definition wraps :: "'j library \<Rightarrow> byte list \<Rightarrow> buf \<Rightarrow> buf keyiv \<Rightarrow> bool" where
  "wraps E mk k e = (\<exists>n c. length n = 12 \<and> e = \<lparr>kiv = U8 n, kkey = U8 c\<rparr> \<and>
                        chacha_encrypt E k (U8 n) (U8 []) (U8 mk) = Inr c)"

definition opens_only_master :: "'j library \<Rightarrow> buf list \<Rightarrow> byte list \<Rightarrow> bool" where
  "opens_only_master E dks mk =
     (\<forall>k \<in> set dks. \<forall>k' \<in> set dks. \<forall>e m.
        wraps E mk k e \<longrightarrow> open_with E (k', e) = Inr m \<longrightarrow> m = mk)"

subsection \<open>The serialised envelope\<close>

text \<open>\<open>encoded E c\<close> is the object \<open>getCipherJSON\<close> builds from a working object \<open>c\<close>
  whose buffers are all \<open>Uint8Array\<close>s.\<close>

fun bytes_of :: "buf \<Rightarrow> byte list" where
  "bytes_of (U8 bs) = bs"
| "bytes_of Null = []"
| "bytes_of (Bits ws) = []"

fun is_u8 :: "buf \<Rightarrow> bool" where
  "is_u8 (U8 bs) = True"
| "is_u8 Null = False"
| "is_u8 (Bits ws) = False"

definition all_u8 :: "buf cipherobj \<Rightarrow> bool" where
  "all_u8 c = (is_u8 (salt c) \<and> is_u8 (iv c) \<and> is_u8 (ct c) \<and>
               list_all (\<lambda>e. is_u8 (kiv e) \<and> is_u8 (kkey e)) (keys c))"

definition encode_entry :: "'j library \<Rightarrow> buf keyiv \<Rightarrow> jsstring keyiv" where
  "encode_entry E e = \<lparr>kiv = b64 E (bytes_of (kiv e)), kkey = b64 E (bytes_of (kkey e))\<rparr>"

definition encoded :: "'j library \<Rightarrow> buf cipherobj \<Rightarrow> jsstring cipherobj" where
  "encoded E c =
     \<lparr> adata = adata c, iter = iter c, mode = mode c, cipher = cipher c, ts = ts c, ks = ks c,
       salt = b64 E (bytes_of (salt c)), iv = b64 E (bytes_of (iv c)), v = v c,
       ct = b64 E (bytes_of (ct c)), fn = fn c, ft = ft c, nkeys = nkeys c, nunlock = nunlock c,
       keys = map (encode_entry E) (keys c) \<rparr>"

subsection \<open>The sealed envelope\<close>

text \<open>
  \<open>sealed_for E mk pt derived c\<close>: the working object \<open>c\<close> holds \<open>pt\<close> sealed under the
  master key \<open>mk\<close>, and its \<open>keys\<close> are, in some order, \<open>mk\<close> sealed under each of the
  derived keys. \<open>combinations_of\<close> is the list \<open>makeCombinedPasswords\<close> returns for a
  threshold of at least 1.
\<close>

definition sealed_for :: "'j library \<Rightarrow> byte list \<Rightarrow> byte list \<Rightarrow> buf list \<Rightarrow> buf cipherobj \<Rightarrow> bool" where
  "sealed_for E mk pt derived c =
     (all_u8 c \<and> length mk = 32 \<and>
      (\<exists>n0 ct0. iv c = U8 n0 \<and> length n0 = 12 \<and> ct c = U8 ct0 \<and>
                chacha_encrypt E (U8 mk) (U8 n0) (U8 []) (U8 pt) = Inr ct0) \<and>
      (\<exists>entries. mset (keys c) = mset entries \<and> list_all2 (wraps E mk) derived entries))"

definition combinations_of :: "jsstring list \<Rightarrow> int \<Rightarrow> jsstring list" where
  "combinations_of passwords M =
     map space_join (choose_lists (nat M) (sort (map normalizeString passwords)))"

subsection \<open>A small instance of the libraries\<close>

text \<open>
  An instance of the library interface on which the definitions can be evaluated:
  sealing prepends the key to the plaintext, opening checks that prefix; the key
  derivation pads or cuts the password bytes; base64 and JSON are the identity.
\<close>

definition demo_library :: "(jsstring cipherobj) library" where
  "demo_library =
     \<lparr> chacha_encrypt = (\<lambda>k n a p. case (k, p) of (U8 kb, U8 pb) \<Rightarrow> Inr (kb @ pb) | _ \<Rightarrow> Inl TypeError),
       chacha_decrypt = (\<lambda>k n a c. case (k, c) of
            (U8 kb, U8 cb) \<Rightarrow> if take (length kb) cb = kb then Inr (drop (length kb) cb) else Inl LibraryError
          | _ \<Rightarrow> Inl TypeError),
       pbkdf2_sha256 = (\<lambda>pw slt c dkLen. Inr (take dkLen (pw @ replicate dkLen 0))),
       utf8_encode = map ucast,
       btoa = Inr, atob = Inr, json_stringify = id, json_parse = Inr \<rparr>"

definition demo_envelope :: "jsstring cipherobj" where
  "demo_envelope =
     \<lparr> adata = [], iter = 50000, mode = js ''chacha20poly1305'', cipher = js ''chacha20'',
       ts = 128, ks = 256, salt = [], iv = [], v = JNum 0, ct = [], fn = None, ft = None,
       nkeys = Some 2, nunlock = Some 1, keys = [] \<rparr>"

definition demo_cipherobj :: "buf cipherobj" where
  "demo_cipherobj =
     \<lparr> adata = [], iter = 50000, mode = js ''chacha20poly1305'', cipher = js ''chacha20'',
       ts = 128, ks = 256, salt = U8 [], iv = U8 [], v = JNum 2, ct = U8 [], fn = None, ft = None,
       nkeys = Some 2, nunlock = Some 1,
       keys = [\<lparr>kiv = U8 [], kkey = U8 [2, 9]\<rparr>, \<lparr>kiv = U8 [], kkey = U8 [1, 7]\<rparr>] \<rparr>"

definition demo_state :: "buf list \<Rightarrow> kbstate" where
  "demo_state derived =
     (keybearer None (\<lambda>i. 0))\<lparr>kb_cipherobj := Some demo_cipherobj, kb_keys := derived,
                               kb_master := U8 [5]\<rparr>"

text \<open>
  An instance of SJCL with the same toy cipher on bitArrays, and a version 1 envelope
  in a state where SJCL is loaded.
\<close>

definition demo_sjcl :: sjcl_lib where
  "demo_sjcl =
     \<lparr> sjcl_pbkdf2 = (\<lambda>pw slt it bits. Inr []),
       sjcl_decrypt = (\<lambda>ciph md k c n a t. case (k, c) of
            (Bits kw, Bits cw) \<Rightarrow> if take (length kw) cw = kw then Inr (drop (length kw) cw) else Inl LibraryError
          | _ \<Rightarrow> Inl TypeError),
       sjcl_toBits = (\<lambda>s. Inr []),
       sjcl_bitLength = (\<lambda>ws. 32 * length ws) \<rparr>"

definition demo_legacy_cipherobj :: "buf cipherobj" where
  "demo_legacy_cipherobj =
     \<lparr> adata = [], iter = 1000, mode = js ''ccm'', cipher = js ''aes'',
       ts = 128, ks = 256, salt = Bits [], iv = Bits [], v = JUndefined, ct = Bits [], fn = None, ft = None,
       nkeys = Some 2, nunlock = Some 1,
       keys = [\<lparr>kiv = Bits [], kkey = Bits [2, 9]\<rparr>, \<lparr>kiv = Bits [], kkey = Bits [1, 7]\<rparr>] \<rparr>"

definition demo_legacy_state :: "buf list \<Rightarrow> kbstate" where
  "demo_legacy_state derived =
     (keybearer (Some demo_sjcl) (\<lambda>i. 0))\<lparr>kb_cipherobj := Some demo_legacy_cipherobj,
                                            kb_keys := derived, kb_master := U8 [5]\<rparr>"

definition demo_sender :: kbstate where
  "demo_sender = setPlaintext (makeSalt (keybearer None (\<lambda>i. 0))) [1, 2, 3] None None"

section \<open>Enumerating combinations: the proof\<close>

lemma length_choose_lists: "length (choose_lists k xs) = length xs choose k"
  by (induction k xs rule: choose_lists.induct) auto

lemma joined_Cons: "joined (Some (join_prefix pfx x)) sub = joined pfx (x # sub)"
  by (simp add: joined_def join_prefix_def)

declare combine.simps [simp del] combine_loop.simps [simp del]

lemma combine_eq:
  "\<forall>k. levels_left = int k \<longrightarrow> (k = 0 \<longrightarrow> pfx \<noteq> None) \<longrightarrow>
     combine passwords out pfx levels_left start =
       Inr (out @ map (\<lambda>sub. remove1 0x20 (joined pfx sub)) (choose_lists k (drop start passwords)))"
  "\<forall>k. levels_left = int (Suc k) \<longrightarrow>
     combine_loop passwords out pfx levels_left i =
       Inr (out @ map (\<lambda>sub. remove1 0x20 (joined pfx sub)) (choose_lists (Suc k) (drop i passwords)))"
proof (induction passwords out pfx levels_left start and passwords out pfx levels_left i
       rule: combine_combine_loop.induct)
  case (1 passwords out pfx levels_left start)
  show ?case
  proof (intro allI impI)
    fix k assume lv: "levels_left = int k" and nz: "k = 0 \<longrightarrow> pfx \<noteq> None"
    show "combine passwords out pfx levels_left start =
       Inr (out @ map (\<lambda>sub. remove1 0x20 (joined pfx sub)) (choose_lists k (drop start passwords)))"
    proof (cases k)
      case 0
      with nz obtain p where p: "pfx = Some p" by auto
      show ?thesis using 0 lv p
        by (subst combine.simps) (simp add: remove_first_space_def joined_def)
    next
      case (Suc k')
      have "\<not> levels_left \<le> 0" using Suc lv by simp
      then show ?thesis using "1.IH" Suc lv by (subst combine.simps) simp
    qed
  qed
next
  case (2 passwords out pfx levels_left i)
  show ?case
  proof (intro allI impI)
    fix k assume lv: "levels_left = int (Suc k)"
    show "combine_loop passwords out pfx levels_left i =
       Inr (out @ map (\<lambda>sub. remove1 0x20 (joined pfx sub)) (choose_lists (Suc k) (drop i passwords)))"
    proof (cases "i < length passwords")
      case False
      then show ?thesis by (subst combine_loop.simps) simp
    next
      case True
      have lv': "levels_left - 1 = int k" using lv by simp
      have c: "combine passwords out (Some (join_prefix pfx (passwords ! i))) (levels_left - 1) (i + 1)
          = Inr (out @ map (\<lambda>sub. remove1 0x20 (joined (Some (join_prefix pfx (passwords ! i))) sub))
                   (choose_lists k (drop (i + 1) passwords)))"
        using "2.IH"(1)[OF True] lv' by simp
      have l: "combine_loop passwords
                 (out @ map (\<lambda>sub. remove1 0x20 (joined (Some (join_prefix pfx (passwords ! i))) sub))
                   (choose_lists k (drop (i + 1) passwords))) pfx levels_left (i + 1)
          = Inr ((out @ map (\<lambda>sub. remove1 0x20 (joined (Some (join_prefix pfx (passwords ! i))) sub))
                   (choose_lists k (drop (i + 1) passwords))) @
                 map (\<lambda>sub. remove1 0x20 (joined pfx sub)) (choose_lists (Suc k) (drop (i + 1) passwords)))"
        using "2.IH"(2)[OF True c] lv by simp
      have d: "drop i passwords = passwords ! i # drop (i + 1) passwords"
        using True by (simp add: Cons_nth_drop_Suc)
      show ?thesis
        apply (subst combine_loop.simps)
        apply (simp only: True if_True c sum.case l)
        apply (simp add: d joined_Cons comp_def)
        done
    qed
  qed
qed

lemma combine_int:
  "(k = 0 \<longrightarrow> pfx \<noteq> None) \<Longrightarrow>
     combine passwords out pfx (int k) start =
       Inr (out @ map (\<lambda>sub. remove1 0x20 (joined pfx sub)) (choose_lists k (drop start passwords)))"
  using combine_eq(1)[where levels_left="int k" and pfx=pfx and passwords=passwords and out=out and start=start]
  by blast

lemma foldl_join: "foldl (\<lambda>acc x. acc @ 0x20 # x) a xs = a @ concat (map (\<lambda>y. (0x20::16 word) # y) xs)"
  by (induction xs arbitrary: a) auto

lemma space_join_Cons: "space_join (x # xs) = x @ concat (map (\<lambda>y. 0x20 # y) xs)"
  by (induction xs arbitrary: x) auto

lemma remove1_joined: "remove1 0x20 (joined None (x # xs)) = space_join (x # xs)"
  by (simp add: joined_def foldl_join space_join_Cons)

lemma choose_lists_nonempty: "sub \<in> set (choose_lists (Suc k) xs) \<Longrightarrow> sub \<noteq> []"
  by (induction xs) auto

lemma map_remove1_joined:
  "map (\<lambda>sub. remove1 0x20 (joined None sub)) (choose_lists (Suc k) xs) = map space_join (choose_lists (Suc k) xs)"
proof (rule map_cong[OF refl])
  fix sub assume "sub \<in> set (choose_lists (Suc k) xs)"
  then have "sub \<noteq> []" by (rule choose_lists_nonempty)
  then obtain y ys where "sub = y # ys" by (cases sub) auto
  then show "remove1 0x20 (joined None sub) = space_join sub" by (simp add: remove1_joined)
qed

lemma combine_top:
  assumes "1 \<le> m"
  shows "combine passwords [] None m 0 = Inr (map space_join (choose_lists (nat m) passwords))"
proof -
  obtain k where k: "nat m = Suc k" using assms by (cases "nat m") auto
  then have "m = int (Suc k)" using assms by linarith
  then show ?thesis using combine_int[where k="Suc k" and pfx=None and passwords=passwords and out="[]" and start=0] k
    by (simp add: map_remove1_joined)
qed


lemma makeCombinedPasswords_eq:
  "1 \<le> m \<Longrightarrow> makeCombinedPasswords s passwords (Some m) =
     (Inr (map space_join (choose_lists (nat m) (sort (map normalizeString passwords)))),
      s\<lparr>kb_nPasswords := Some (int (length passwords)), kb_nToUnlock := Some m\<rparr>)"
  by (simp add: makeCombinedPasswords_def combine_top)

lemma choose_lists_len:
  "(length xs < k \<longrightarrow> choose_lists k xs = []) \<and> (length xs = k \<longrightarrow> choose_lists k xs = [xs])"
  by (induction k xs rule: choose_lists.induct) auto

lemma choose_lists_all: "choose_lists (length xs) xs = [xs]"
  using choose_lists_len[of xs "length xs"] by simp

lemma choose_lists_short: "length xs < k \<Longrightarrow> choose_lists k xs = []"
  using choose_lists_len[of xs k] by simp

lemma set_choose_lists: "set (choose_lists k xs) = {ys. subseq ys xs \<and> length ys = k}"
proof (induction k xs rule: choose_lists.induct)
  case (1 xs)
  then show ?case by auto
next
  case (2 k)
  then show ?case by auto
next
  case (3 k x xs)
  show ?case
  proof (rule set_eqI)
    fix ys
    show "ys \<in> set (choose_lists (Suc k) (x # xs)) \<longleftrightarrow> ys \<in> {ys. subseq ys (x # xs) \<and> length ys = Suc k}"
    proof (cases ys)
      case Nil
      then show ?thesis using 3 by auto
    next
      case (Cons y ys')
      show ?thesis
      proof (cases "y = x")
        case True
        then show ?thesis using 3 Cons by (auto intro: subseq_Cons')
      next
        case False
        then show ?thesis using 3 Cons by auto
      qed
    qed
  qed
qed

lemma sorted_submset_subseq:
  fixes xs ys :: "('a::linorder) list"
  shows "sorted xs \<Longrightarrow> sorted ys \<Longrightarrow> mset ys \<subseteq># mset xs \<Longrightarrow> subseq ys xs"
proof (induction xs arbitrary: ys)
  case Nil
  then show ?case by simp
next
  case (Cons x xs)
  show ?case
  proof (cases ys)
    case Nil
    then show ?thesis by simp
  next
    case (Cons y ys')
    show ?thesis
    proof (cases "y = x")
      case True
      have "mset ys' \<subseteq># mset xs" using Cons.prems(3) Cons True by simp
      moreover have "sorted ys'" "sorted xs" using Cons.prems Cons by auto
      ultimately have "subseq ys' xs" using Cons.IH by blast
      then show ?thesis using Cons True by simp
    next
      case False
      have yin: "y \<in> set (x # xs)" using Cons.prems(3) Cons
        by (metis list.set_intros(1) mset_subset_eqD set_mset_mset)
      then have "x < y" using False Cons.prems(1) by auto
      then have "x \<notin> set ys" using Cons.prems(2) Cons by auto
      then have "mset ys \<subseteq># mset xs" using Cons.prems(3)
        by (metis Diff_eq_empty_iff_mset minus_add_mset_if_not_in_lhs mset.simps(2) set_mset_mset)
      moreover have "sorted xs" using Cons.prems(1) by simp
      ultimately have "subseq ys xs" using Cons.IH Cons.prems(2) by blast
      then show ?thesis by (simp add: Cons False subseq_Cons')
    qed
  qed
qed

lemma sort_submset_subseq:
  fixes xs ys :: "('a::linorder) list"
  shows "mset ys \<subseteq># mset xs \<Longrightarrow> subseq (sort ys) (sort xs)"
  by (rule sorted_submset_subseq) simp_all

lemma sort_mset_cong:
  fixes xs ys :: "('a::linorder) list"
  shows "mset xs = mset ys \<Longrightarrow> sort xs = sort ys"
  by (rule properties_for_sort) simp_all

lemma subseq_sorted:
  fixes xs ys :: "('a::linorder) list"
  shows "subseq ys xs \<Longrightarrow> sorted xs \<Longrightarrow> sorted ys"
  by (metis sorted_nths subseq_conv_nths)

lemma subseq_imp_mset_subseteq: "subseq ys xs \<Longrightarrow> mset ys \<subseteq># mset xs"
proof (induction rule: list_emb.induct)
  case (list_emb_Nil ys)
  then show ?case by simp
next
  case (list_emb_Cons xs ys y)
  then show ?case using subset_mset.trans by fastforce
next
  case (list_emb_Cons2 x y xs ys)
  then show ?case by simp
qed

section \<open>Order independence (C3)\<close>

text \<open>
  C3. For every list of passwords, every \<open>M\<close> and every permutation of the list,
  \<open>makeCombinedPasswords\<close> returns the same result (the same sequence of combinations, or
  the same exception) and leaves the same state. For \<open>M \<ge> 1\<close> each combination is the
  space-joined string of a sorted list of \<open>M\<close> of the normalised passwords.
\<close>

theorem C3_order_independence:
  assumes "mset passwords' = mset passwords"
  shows "makeCombinedPasswords s passwords' m = makeCombinedPasswords s passwords m \<and>
         (\<forall>M. m = Some M \<and> 1 \<le> M \<longrightarrow>
            (\<exists>cs. fst (makeCombinedPasswords s passwords m) = Inr cs \<and>
               (\<forall>c \<in> set cs. \<exists>sub. c = space_join sub \<and> length sub = nat M \<and> sorted sub \<and>
                    mset sub \<subseteq># mset (map normalizeString passwords))))"
proof
  have "mset (map normalizeString passwords') = mset (map normalizeString passwords)"
    using assms by simp
  then have "sort (map normalizeString passwords') = sort (map normalizeString passwords)"
    by (rule sort_mset_cong)
  moreover have "length passwords' = length passwords"
    using assms by (rule mset_eq_length)
  ultimately show "makeCombinedPasswords s passwords' m = makeCombinedPasswords s passwords m"
    by (simp add: makeCombinedPasswords_def)
next
  show "\<forall>M. m = Some M \<and> 1 \<le> M \<longrightarrow>
            (\<exists>cs. fst (makeCombinedPasswords s passwords m) = Inr cs \<and>
               (\<forall>c \<in> set cs. \<exists>sub. c = space_join sub \<and> length sub = nat M \<and> sorted sub \<and>
                    mset sub \<subseteq># mset (map normalizeString passwords)))"
  proof (intro allI impI)
    fix M assume M: "m = Some M \<and> 1 \<le> M"
    let ?xs = "sort (map normalizeString passwords)"
    have r: "fst (makeCombinedPasswords s passwords m) = Inr (map space_join (choose_lists (nat M) ?xs))"
      using M by (simp add: makeCombinedPasswords_eq)
    have "\<forall>c \<in> set (map space_join (choose_lists (nat M) ?xs)).
            \<exists>sub. c = space_join sub \<and> length sub = nat M \<and> sorted sub \<and>
                  mset sub \<subseteq># mset (map normalizeString passwords)"
    proof
      fix c assume "c \<in> set (map space_join (choose_lists (nat M) ?xs))"
      then obtain sub where sub: "sub \<in> set (choose_lists (nat M) ?xs)" and c: "c = space_join sub"
        by auto
      from sub have ss: "subseq sub ?xs" and len: "length sub = nat M"
        by (simp_all add: set_choose_lists)
      have "sorted sub" using ss by (rule subseq_sorted) simp
      moreover have "mset sub \<subseteq># mset (map normalizeString passwords)"
        using subseq_imp_mset_subseteq[OF ss] by simp
      ultimately show "\<exists>sub. c = space_join sub \<and> length sub = nat M \<and> sorted sub \<and>
                  mset sub \<subseteq># mset (map normalizeString passwords)"
        using c len by blast
    qed
    with r show "\<exists>cs. fst (makeCombinedPasswords s passwords m) = Inr cs \<and>
               (\<forall>c \<in> set cs. \<exists>sub. c = space_join sub \<and> length sub = nat M \<and> sorted sub \<and>
                    mset sub \<subseteq># mset (map normalizeString passwords))"
      by blast
  qed
qed

lemma normalizeString_ab: "normalizeString (js ''a'') = js ''a''" "normalizeString (js ''b'') = js ''b''"
  by (simp_all add: normalizeString_def js_def strip_ends_def is_ws_def)

theorem C3_order_independence_witness:
  "makeCombinedPasswords (keybearer None (\<lambda>_. 0)) [js ''b'', js ''a''] (Some 1) =
   makeCombinedPasswords (keybearer None (\<lambda>_. 0)) [js ''a'', js ''b''] (Some 1) \<and>
   fst (makeCombinedPasswords (keybearer None (\<lambda>_. 0)) [js ''a'', js ''b''] (Some 1)) = Inr [js ''a'', js ''b'']"
proof -
  have p: "mset [js ''b'', js ''a''] = mset [js ''a'', js ''b'']" by simp
  have e: "fst (makeCombinedPasswords (keybearer None (\<lambda>_. 0)) [js ''a'', js ''b''] (Some 1)) = Inr [js ''a'', js ''b'']"
    by (simp add: makeCombinedPasswords_eq normalizeString_ab) (simp add: js_def)
  show ?thesis
    using C3_order_independence[OF p, of "keybearer None (\<lambda>_. 0)" "Some 1"] e by simp
qed

section \<open>Legacy format detection (C8)\<close>

lemma js_modes: "js ''chacha20poly1305'' \<noteq> js ''ccm''" "js ''chacha20poly1305'' \<noteq> js ''ocb2''"
  by (simp_all add: js_def)

text \<open>
  C8, as stated, fails: an envelope whose version field is present and is \<open>0\<close>, with the
  current mode, is classified as legacy, because \<open>!cipherobj.v\<close> holds for every falsy
  value and not only for a missing field.
\<close>

theorem C8_counterexample:
  "\<not> (isLegacyFormat demo_envelope \<longleftrightarrow>
        (v demo_envelope = JUndefined \<or> v demo_envelope = JNum 1 \<or>
         mode demo_envelope = js ''ccm'' \<or> mode demo_envelope = js ''ocb2''))"
  by (simp add: isLegacyFormat_def demo_envelope_def js_modes)

text \<open>
  C8, amended. \<open>isLegacyFormat\<close> returns true exactly when the version field is absent or
  falsy (\<open>null\<close>, \<open>false\<close>, \<open>0\<close>, the empty string) or equals 1, or the mode is
  \<open>'ccm'\<close> or \<open>'ocb2'\<close>; it returns false for \<open>v = 2\<close> with mode
  \<open>'chacha20poly1305'\<close>.
\<close>

theorem C8_isLegacyFormat:
  "(isLegacyFormat obj \<longleftrightarrow>
      (v obj \<in> {JUndefined, JNull, JBool False, JNum 0, JStr []} \<or> v obj = JNum 1 \<or>
       mode obj = js ''ccm'' \<or> mode obj = js ''ocb2'')) \<and>
   \<not> isLegacyFormat (obj\<lparr>v := JNum 2, mode := js ''chacha20poly1305''\<rparr>)"
  by (cases "v obj") (auto simp: isLegacyFormat_def js_modes)

theorem C8_isLegacyFormat_witness:
  "isLegacyFormat demo_envelope \<and>
   \<not> isLegacyFormat (demo_envelope\<lparr>v := JNum 2, mode := js ''chacha20poly1305''\<rparr>)"
  using C8_isLegacyFormat[of demo_envelope] by (simp add: demo_envelope_def)

section \<open>A single combination at decryption (C7)\<close>

lemma makeKeyFromPassword_state:
  "snd (makeKeyFromPassword E s c) = s\<lparr>calls := calls s @ [Derive c]\<rparr>"
  by (simp add: makeKeyFromPassword_def Let_def split: option.splits sum.splits buf.splits)

lemma makeKeyCombinations_loop_single:
  "calls (snd (makeKeyCombinations_loop E s [c])) = calls s @ [Derive c]"
proof (cases "makeKeyFromPassword E s c")
  case (Pair r s')
  then have "s' = s\<lparr>calls := calls s @ [Derive c]\<rparr>"
    using makeKeyFromPassword_state[of E s c] by simp
  then show ?thesis using Pair by (cases r) simp_all
qed

text \<open>
  C7. For a list of exactly \<open>M\<close> passwords, \<open>M \<ge> 1\<close>, \<open>makeCombinedPasswords\<close> returns
  exactly one combination, the space-joined string of the sorted normalised passwords
  (of the sorted passwords themselves when they are already normalised), and
  \<open>makeKeyCombinations\<close> performs exactly one key derivation, on that string.
\<close>

theorem C7_single_combination:
  assumes "length passwords = nat M" and "1 \<le> M"
  shows "fst (makeCombinedPasswords s passwords (Some M)) =
           Inr [space_join (sort (map normalizeString passwords))] \<and>
         ((\<forall>p \<in> set passwords. normalizeString p = p) \<longrightarrow>
            fst (makeCombinedPasswords s passwords (Some M)) = Inr [space_join (sort passwords)]) \<and>
         calls (snd (makeKeyCombinations E s passwords (Some M))) =
           calls s @ [Derive (space_join (sort (map normalizeString passwords)))]"
proof -
  let ?xs = "sort (map normalizeString passwords)"
  have "length ?xs = nat M" using assms(1) by simp
  then have one: "choose_lists (nat M) ?xs = [?xs]"
    using choose_lists_all[of ?xs] by simp
  have a: "fst (makeCombinedPasswords s passwords (Some M)) = Inr [space_join ?xs]"
    using assms(2) one by (simp add: makeCombinedPasswords_eq)
  have b: "(\<forall>p \<in> set passwords. normalizeString p = p) \<longrightarrow>
            fst (makeCombinedPasswords s passwords (Some M)) = Inr [space_join (sort passwords)]"
  proof
    assume "\<forall>p \<in> set passwords. normalizeString p = p"
    then have "map normalizeString passwords = passwords" by (simp add: map_idI)
    with a show "fst (makeCombinedPasswords s passwords (Some M)) = Inr [space_join (sort passwords)]"
      by simp
  qed
  have c: "calls (snd (makeKeyCombinations E s passwords (Some M))) = calls s @ [Derive (space_join ?xs)]"
    using assms(2) one
    by (simp add: makeKeyCombinations_def makeCombinedPasswords_eq makeKeyCombinations_loop_single
             del: makeKeyCombinations_loop.simps)
  show ?thesis using a b c by blast
qed

theorem C7_single_combination_witness:
  "fst (makeCombinedPasswords (keybearer None (\<lambda>_. 0)) [js ''b'', js ''a''] (Some 2)) = Inr [js ''a b''] \<and>
   calls (snd (makeKeyCombinations demo_library (keybearer None (\<lambda>_. 0)) [js ''b'', js ''a''] (Some 2)))
     = [Derive (js ''a b'')]"
proof -
  have l: "length [js ''b'', js ''a''] = nat 2" by simp
  have s: "space_join (sort (map normalizeString [js ''b'', js ''a''])) = js ''a b''"
    by (simp add: normalizeString_ab) (simp add: js_def)
  show ?thesis
    using C7_single_combination[OF l, of "keybearer None (\<lambda>_. 0)" demo_library] s
    by (simp add: keybearer_def)
qed

section \<open>The trial-decryption loop (C6, C10)\<close>

lemma find_append_eq:
  "find P (xs @ ys) = (case find P xs of None \<Rightarrow> find P ys | Some x \<Rightarrow> Some x)"
  by (induction xs) auto

lemma find_map_eq: "find P (map f xs) = map_option f (find (\<lambda>x. P (f x)) xs)"
  by (induction xs) auto

lemma find_None_all: "find P xs = None \<Longrightarrow> \<forall>x \<in> set xs. \<not> P x"
  by (simp add: find_None_iff)

lemma find_Some_in: "find P xs = Some x \<Longrightarrow> x \<in> set xs \<and> P x"
  by (induction xs) (auto split: if_splits)

lemma decryptKeys_inner_eq:
  "decryptKeys_inner E s k es =
     (case find (\<lambda>e. authenticates E (k, e)) es of
        None \<Rightarrow> (False, s\<lparr>calls := calls s @ map (\<lambda>e. open_call (k, e)) es\<rparr>)
      | Some e \<Rightarrow>
          (True, s\<lparr>calls := calls s @ map (\<lambda>e. open_call (k, e))
                                         (takeWhile (\<lambda>e. \<not> authenticates E (k, e)) es @ [e]),
                   kb_master := U8 (projr (open_with E (k, e)))\<rparr>))"
proof (induction es arbitrary: s)
  case Nil
  then show ?case by simp
next
  case (Cons e es)
  show ?case
  proof (cases "open_with E (k, e)")
    case (Inl err)
    then have na: "\<not> authenticates E (k, e)" by (simp add: authenticates_def)
    have step: "decryptKeys_inner E s k (e # es) =
                decryptKeys_inner E (s\<lparr>calls := calls s @ [Open k (kiv e) (kkey e)]\<rparr>) k es"
      using Inl by (simp add: decryptChaCha20Poly1305_def open_with_def)
    show ?thesis
      unfolding step Cons.IH using na
      by (simp add: open_call_def split: option.splits)
  next
    case (Inr m)
    then have a: "authenticates E (k, e)" by (simp add: authenticates_def)
    show ?thesis using Inr a
      by (simp add: decryptChaCha20Poly1305_def open_with_def open_call_def)
  qed
qed

lemma decryptKeys_outer_eq:
  assumes "kb_cipherobj s = Some c"
  shows "decryptKeys_outer E s dks =
     (case find (authenticates E) (List.product dks (keys c)) of
        None \<Rightarrow> (Inr False, s\<lparr>calls := calls s @ map open_call (List.product dks (keys c))\<rparr>)
      | Some t \<Rightarrow>
          (Inr True, s\<lparr>calls := calls s @ map open_call
                          (takeWhile (\<lambda>t. \<not> authenticates E t) (List.product dks (keys c)) @ [t]),
                       kb_master := U8 (projr (open_with E t))\<rparr>))"
  using assms
proof (induction dks arbitrary: s)
  case Nil
  then show ?case by simp
next
  case (Cons k dks)
  let ?P = "authenticates E"
  let ?row = "map (Pair k) (keys c)"
  let ?rest = "List.product dks (keys c)"
  show ?case
  proof (cases "find (\<lambda>e. ?P (k, e)) (keys c)")
    case None
    then have allrow: "\<forall>t \<in> set ?row. \<not> ?P t"
      by (auto dest: find_None_all)
    let ?s1 = "s\<lparr>calls := calls s @ map (\<lambda>e. open_call (k, e)) (keys c)\<rparr>"
    have inner: "decryptKeys_inner E s k (keys c) = (False, ?s1)"
      using None by (simp add: decryptKeys_inner_eq)
    have c1: "kb_cipherobj ?s1 = Some c" using Cons.prems by simp
    have f: "find ?P (?row @ ?rest) = find ?P ?rest"
      using None by (simp add: find_append_eq find_map_eq)
    have tw: "takeWhile (\<lambda>t. \<not> ?P t) (?row @ ?rest) = ?row @ takeWhile (\<lambda>t. \<not> ?P t) ?rest"
      by (rule takeWhile_append2) (use allrow in blast)
    show ?thesis
      using Cons.prems inner Cons.IH[OF c1] f tw
      by (simp add: comp_def split: option.splits)
  next
    case (Some e)
    then have ein: "e \<in> set (keys c)" and pe: "?P (k, e)"
      using find_Some_in[of "\<lambda>e. ?P (k, e)" "keys c" e] by auto
    have inner: "decryptKeys_inner E s k (keys c) =
        (True, s\<lparr>calls := calls s @ map (\<lambda>e. open_call (k, e))
                                         (takeWhile (\<lambda>e. \<not> ?P (k, e)) (keys c) @ [e]),
                   kb_master := U8 (projr (open_with E (k, e)))\<rparr>)"
      using Some by (simp add: decryptKeys_inner_eq)
    have f: "find ?P (?row @ ?rest) = Some (k, e)"
      using Some by (simp add: find_append_eq find_map_eq)
    have "(k, e) \<in> set ?row" using ein by simp
    then have tw: "takeWhile (\<lambda>t. \<not> ?P t) (?row @ ?rest) = takeWhile (\<lambda>t. \<not> ?P t) ?row"
      using pe by (intro takeWhile_append1[where x="(k, e)"]) auto
    have tm: "takeWhile (\<lambda>t. \<not> ?P t) ?row = map (Pair k) (takeWhile (\<lambda>e. \<not> ?P (k, e)) (keys c))"
      by (simp add: takeWhile_map comp_def)
    show ?thesis
      using Cons.prems inner f tw tm
      by (simp add: comp_def)
  qed
qed

lemma decryptKeysLegacy_inner_eq:
  assumes "sjcl s = Some L"
  shows "decryptKeysLegacy_inner s c k es =
     (case find (\<lambda>e. decryptKeyLegacy (Some L) c k e \<noteq> None) es of
        None \<Rightarrow> (False, s\<lparr>calls := calls s @ map (\<lambda>e. open_call (k, e)) es\<rparr>)
      | Some e \<Rightarrow>
          (True, s\<lparr>calls := calls s @ map (\<lambda>e. open_call (k, e))
                                         (takeWhile (\<lambda>e. decryptKeyLegacy (Some L) c k e = None) es @ [e]),
                   kb_master := Bits (the (decryptKeyLegacy (Some L) c k e))\<rparr>))"
  using assms
proof (induction es arbitrary: s)
  case Nil
  then show ?case by simp
next
  case (Cons e es)
  let ?s' = "s\<lparr>calls := calls s @ [Open k (kiv e) (kkey e)]\<rparr>"
  have l: "sjcl ?s' = Some L" using Cons.prems by simp
  show ?case
  proof (cases "decryptKeyLegacy (Some L) c k e")
    case None
    have step: "decryptKeysLegacy_inner s c k (e # es) = decryptKeysLegacy_inner ?s' c k es"
      using None Cons.prems by (simp add: Let_def)
    show ?thesis
      unfolding step Cons.IH[OF l] using None
      by (simp add: open_call_def split: option.splits)
  next
    case (Some master)
    then show ?thesis using Cons.prems
      by (simp add: Let_def open_call_def)
  qed
qed

lemma decryptKeysLegacy_outer_eq:
  assumes "kb_cipherobj s = Some c" and "sjcl s = Some L"
  shows "decryptKeysLegacy_outer s dks =
     (case find (\<lambda>t. decryptKeyLegacy (Some L) c (fst t) (snd t) \<noteq> None) (List.product dks (keys c)) of
        None \<Rightarrow> (Inr False, s\<lparr>calls := calls s @ map open_call (List.product dks (keys c))\<rparr>)
      | Some t \<Rightarrow>
          (Inr True, s\<lparr>calls := calls s @ map open_call
                          (takeWhile (\<lambda>t. decryptKeyLegacy (Some L) c (fst t) (snd t) = None)
                             (List.product dks (keys c)) @ [t]),
                       kb_master := Bits (the (decryptKeyLegacy (Some L) c (fst t) (snd t)))\<rparr>))"
  using assms
proof (induction dks arbitrary: s)
  case Nil
  then show ?case by simp
next
  case (Cons k dks)
  let ?P = "\<lambda>t. decryptKeyLegacy (Some L) c (fst t) (snd t) \<noteq> None"
  let ?row = "map (Pair k) (keys c)"
  let ?rest = "List.product dks (keys c)"
  show ?case
  proof (cases "find (\<lambda>e. ?P (k, e)) (keys c)")
    case None
    then have allrow: "\<forall>t \<in> set ?row. \<not> ?P t"
      by (auto dest: find_None_all)
    let ?s1 = "s\<lparr>calls := calls s @ map (\<lambda>e. open_call (k, e)) (keys c)\<rparr>"
    have inner: "decryptKeysLegacy_inner s c k (keys c) = (False, ?s1)"
      using None by (simp add: decryptKeysLegacy_inner_eq[OF Cons.prems(2)])
    have c1: "kb_cipherobj ?s1 = Some c" and l1: "sjcl ?s1 = Some L" using Cons.prems by simp_all
    have f: "find ?P (?row @ ?rest) = find ?P ?rest"
      using None by (simp add: find_append_eq find_map_eq)
    have tw: "takeWhile (\<lambda>t. \<not> ?P t) (?row @ ?rest) = ?row @ takeWhile (\<lambda>t. \<not> ?P t) ?rest"
      by (rule takeWhile_append2) (use allrow in blast)
    show ?thesis
      using Cons.prems inner Cons.IH[OF c1 l1] f tw
      by (simp add: comp_def split: option.splits)
  next
    case (Some e)
    then have ein: "e \<in> set (keys c)" and pe: "?P (k, e)"
      using find_Some_in[of "\<lambda>e. ?P (k, e)" "keys c" e] by auto
    have inner: "decryptKeysLegacy_inner s c k (keys c) =
        (True, s\<lparr>calls := calls s @ map (\<lambda>e. open_call (k, e))
                                         (takeWhile (\<lambda>e. \<not> ?P (k, e)) (keys c) @ [e]),
                   kb_master := Bits (the (decryptKeyLegacy (Some L) c k e))\<rparr>)"
      using Some by (simp add: decryptKeysLegacy_inner_eq[OF Cons.prems(2)])
    have f: "find ?P (?row @ ?rest) = Some (k, e)"
      using Some by (simp add: find_append_eq find_map_eq)
    have "(k, e) \<in> set ?row" using ein by simp
    then have tw: "takeWhile (\<lambda>t. \<not> ?P t) (?row @ ?rest) = takeWhile (\<lambda>t. \<not> ?P t) ?row"
      using pe by (intro takeWhile_append1[where x="(k, e)"]) auto
    have tm: "takeWhile (\<lambda>t. \<not> ?P t) ?row = map (Pair k) (takeWhile (\<lambda>e. \<not> ?P (k, e)) (keys c))"
      by (simp add: takeWhile_map comp_def)
    show ?thesis
      using Cons.prems inner f tw tm
      by (simp add: comp_def)
  qed
qed

lemma trial_open_noble:
  assumes "sjcl s = None \<or> \<not> isLegacyFormat c"
  shows "(trial_open E s c t \<noteq> None) = authenticates E t"
    and "authenticates E t \<Longrightarrow> the (trial_open E s c t) = U8 (projr (open_with E t))"
  using assms by (auto simp: trial_open_def authenticates_def split: sum.splits option.splits bool.splits)

lemma trial_open_legacy:
  assumes "sjcl s = Some L" and "isLegacyFormat c"
  shows "(trial_open E s c t \<noteq> None) = (decryptKeyLegacy (Some L) c (fst t) (snd t) \<noteq> None)"
    and "decryptKeyLegacy (Some L) c (fst t) (snd t) \<noteq> None \<Longrightarrow>
         the (trial_open E s c t) = Bits (the (decryptKeyLegacy (Some L) c (fst t) (snd t)))"
  using assms
  by (auto simp: trial_open_def open_with_legacy_def decryptKeyLegacy_def split: sum.splits)

text \<open>
  C6. \<open>decryptKeys\<close> tries the pairs (derived key, wrapped key) in order, derived keys in
  the outer loop, with the trial of the path it takes: the AEAD open of \<open>kb-noble.js\<close>, or
  the SJCL decryption inside \<open>decryptKeyLegacy\<close> when SJCL is loaded and the envelope is a
  legacy one. Every trial that throws is caught; at the first pair that opens it assigns
  the recovered master key and makes no further call; it returns false exactly when no
  pair opens, having tried them all. It never throws on an authentication failure.
\<close>

theorem C6_trial_loop:
  assumes "kb_cipherobj s = Some c"
  shows "decryptKeys E s =
     (case find (\<lambda>t. trial_open E s c t \<noteq> None) (trials s c) of
        None \<Rightarrow> (Inr False, s\<lparr>calls := calls s @ map open_call (trials s c)\<rparr>)
      | Some t \<Rightarrow>
          (Inr True, s\<lparr>calls := calls s @ map open_call
                          (takeWhile (\<lambda>t. trial_open E s c t = None) (trials s c) @ [t]),
                       kb_master := the (trial_open E s c t)\<rparr>)) \<and>
     (fst (decryptKeys E s) = Inr False \<longleftrightarrow> (\<forall>t \<in> set (trials s c). trial_open E s c t = None))"
proof -
  have e: "decryptKeys E s =
     (case find (\<lambda>t. trial_open E s c t \<noteq> None) (trials s c) of
        None \<Rightarrow> (Inr False, s\<lparr>calls := calls s @ map open_call (trials s c)\<rparr>)
      | Some t \<Rightarrow>
          (Inr True, s\<lparr>calls := calls s @ map open_call
                          (takeWhile (\<lambda>t. trial_open E s c t = None) (trials s c) @ [t]),
                       kb_master := the (trial_open E s c t)\<rparr>))"
  proof (cases "sjcl s \<noteq> None \<and> isLegacyFormat c")
    case True
    then obtain L where L: "sjcl s = Some L" and lg: "isLegacyFormat c" by auto
    have d: "decryptKeys E s = decryptKeysLegacy_outer s (kb_keys s)"
      using assms L lg by (simp add: decryptKeys_def decryptKeysLegacy_def)
    have p: "(\<lambda>t. trial_open E s c t \<noteq> None) = (\<lambda>t. decryptKeyLegacy (Some L) c (fst t) (snd t) \<noteq> None)"
      by (rule ext) (rule trial_open_legacy(1)[OF L lg])
    have q: "(\<lambda>t. trial_open E s c t = None) = (\<lambda>t. decryptKeyLegacy (Some L) c (fst t) (snd t) = None)"
      using trial_open_legacy(1)[OF L lg, of E] by (intro ext) blast
    show ?thesis
    proof (cases "find (\<lambda>t. decryptKeyLegacy (Some L) c (fst t) (snd t) \<noteq> None) (trials s c)")
      case None
      then show ?thesis
        unfolding d p using decryptKeysLegacy_outer_eq[OF assms L, of "kb_keys s"]
        by (simp add: trials_def)
    next
      case (Some t)
      then have "decryptKeyLegacy (Some L) c (fst t) (snd t) \<noteq> None"
        using find_Some_in[OF Some] by simp
      then have m: "the (trial_open E s c t) = Bits (the (decryptKeyLegacy (Some L) c (fst t) (snd t)))"
        by (rule trial_open_legacy(2)[OF L lg])
      show ?thesis
        unfolding d p q using decryptKeysLegacy_outer_eq[OF assms L, of "kb_keys s"] Some m
        by (simp add: trials_def)
    qed
  next
    case False
    then have n: "sjcl s = None \<or> \<not> isLegacyFormat c" by blast
    have d: "decryptKeys E s = decryptKeys_outer E s (kb_keys s)"
      using assms n by (auto simp: decryptKeys_def split: option.splits)
    have p: "(\<lambda>t. trial_open E s c t \<noteq> None) = authenticates E"
      by (rule ext) (rule trial_open_noble(1)[OF n])
    have q: "(\<lambda>t. trial_open E s c t = None) = (\<lambda>t. \<not> authenticates E t)"
      using trial_open_noble(1)[OF n, of E] by (intro ext) blast
    show ?thesis
    proof (cases "find (authenticates E) (trials s c)")
      case None
      then show ?thesis
        unfolding d p using decryptKeys_outer_eq[OF assms, of E "kb_keys s"]
        by (simp add: trials_def)
    next
      case (Some t)
      then have "authenticates E t" using find_Some_in[OF Some] by simp
      then have m: "the (trial_open E s c t) = U8 (projr (open_with E t))"
        by (rule trial_open_noble(2)[OF n])
      show ?thesis
        unfolding d p q using decryptKeys_outer_eq[OF assms, of E "kb_keys s"] Some m
        by (simp add: trials_def)
    qed
  qed
  have "fst (decryptKeys E s) = Inr False \<longleftrightarrow> find (\<lambda>t. trial_open E s c t \<noteq> None) (trials s c) = None"
    unfolding e by (simp split: option.splits)
  then have "fst (decryptKeys E s) = Inr False \<longleftrightarrow> (\<forall>t \<in> set (trials s c). trial_open E s c t = None)"
    by (auto simp: find_None_iff)
  with e show ?thesis by blast
qed

theorem C6_trial_loop_witness:
  "decryptKeys demo_library (demo_state [U8 [3], U8 [1]]) =
     (Inr True, (demo_state [U8 [3], U8 [1]])
        \<lparr>calls := [Open (U8 [3]) (U8 []) (U8 [2, 9]), Open (U8 [3]) (U8 []) (U8 [1, 7]),
                   Open (U8 [1]) (U8 []) (U8 [2, 9]), Open (U8 [1]) (U8 []) (U8 [1, 7])],
          kb_master := U8 [7]\<rparr>) \<and>
   decryptKeys demo_library (demo_legacy_state [Bits [3], Bits [2]]) =
     (Inr True, (demo_legacy_state [Bits [3], Bits [2]])
        \<lparr>calls := [Open (Bits [3]) (Bits []) (Bits [2, 9]), Open (Bits [3]) (Bits []) (Bits [1, 7]),
                   Open (Bits [2]) (Bits []) (Bits [2, 9])],
          kb_master := Bits [9]\<rparr>) \<and>
   decryptKeys demo_library (demo_legacy_state [Bits [3]]) =
     (Inr False, (demo_legacy_state [Bits [3]])
        \<lparr>calls := [Open (Bits [3]) (Bits []) (Bits [2, 9]), Open (Bits [3]) (Bits []) (Bits [1, 7])]\<rparr>)"
proof -
  have c: "kb_cipherobj (demo_state [U8 [3], U8 [1]]) = Some demo_cipherobj"
    by (simp add: demo_state_def)
  have a: "decryptKeys demo_library (demo_state [U8 [3], U8 [1]]) =
     (Inr True, (demo_state [U8 [3], U8 [1]])
        \<lparr>calls := [Open (U8 [3]) (U8 []) (U8 [2, 9]), Open (U8 [3]) (U8 []) (U8 [1, 7]),
                   Open (U8 [1]) (U8 []) (U8 [2, 9]), Open (U8 [1]) (U8 []) (U8 [1, 7])],
          kb_master := U8 [7]\<rparr>)"
    using C6_trial_loop[OF c, of demo_library]
    by (simp add: trials_def demo_state_def demo_cipherobj_def keybearer_def trial_open_def
        open_with_def open_call_def demo_library_def isLegacyFormat_def js_def)
  have cl: "\<And>d. kb_cipherobj (demo_legacy_state d) = Some demo_legacy_cipherobj"
    by (simp add: demo_legacy_state_def)
  have b: "decryptKeys demo_library (demo_legacy_state [Bits [3], Bits [2]]) =
     (Inr True, (demo_legacy_state [Bits [3], Bits [2]])
        \<lparr>calls := [Open (Bits [3]) (Bits []) (Bits [2, 9]), Open (Bits [3]) (Bits []) (Bits [1, 7]),
                   Open (Bits [2]) (Bits []) (Bits [2, 9])],
          kb_master := Bits [9]\<rparr>)"
    using C6_trial_loop[OF cl, of demo_library "[Bits [3], Bits [2]]"]
    by (simp add: trials_def demo_legacy_state_def demo_legacy_cipherobj_def keybearer_def trial_open_def
        open_with_legacy_def demo_sjcl_def open_call_def isLegacyFormat_def)
  have d: "decryptKeys demo_library (demo_legacy_state [Bits [3]]) =
     (Inr False, (demo_legacy_state [Bits [3]])
        \<lparr>calls := [Open (Bits [3]) (Bits []) (Bits [2, 9]), Open (Bits [3]) (Bits []) (Bits [1, 7])]\<rparr>)"
    using C6_trial_loop[OF cl, of demo_library "[Bits [3]]"]
    by (simp add: trials_def demo_legacy_state_def demo_legacy_cipherobj_def keybearer_def trial_open_def
        open_with_legacy_def demo_sjcl_def open_call_def isLegacyFormat_def)
  from a b d show ?thesis by blast
qed


lemma decryptKeys_inner_master:
  "\<not> fst (decryptKeys_inner E s k es) \<Longrightarrow> kb_master (snd (decryptKeys_inner E s k es)) = kb_master s"
  by (simp add: decryptKeys_inner_eq split: option.splits)

lemma decryptKeys_outer_master:
  "fst (decryptKeys_outer E s dks) \<noteq> Inr True \<Longrightarrow>
   kb_master (snd (decryptKeys_outer E s dks)) = kb_master s"
proof (induction dks arbitrary: s)
  case Nil
  then show ?case by simp
next
  case (Cons k dks)
  show ?case
  proof (cases "kb_cipherobj s")
    case None
    then show ?thesis by simp
  next
    case (Some c)
    obtain b s' where i: "decryptKeys_inner E s k (keys c) = (b, s')"
      by (cases "decryptKeys_inner E s k (keys c)")
    show ?thesis
    proof (cases b)
      case True
      then show ?thesis using Cons.prems Some i by simp
    next
      case False
      then have m: "kb_master s' = kb_master s"
        using decryptKeys_inner_master[of E s k "keys c"] i by simp
      have "fst (decryptKeys_outer E s' dks) \<noteq> Inr True"
        using Cons.prems Some i False by simp
      then have "kb_master (snd (decryptKeys_outer E s' dks)) = kb_master s'"
        by (rule Cons.IH)
      then show ?thesis using Some i False m by simp
    qed
  qed
qed

lemma decryptKeysLegacy_inner_master:
  "\<not> fst (decryptKeysLegacy_inner s c k es) \<Longrightarrow>
   kb_master (snd (decryptKeysLegacy_inner s c k es)) = kb_master s"
proof (induction es arbitrary: s)
  case Nil
  then show ?case by simp
next
  case (Cons e es)
  let ?s' = "case sjcl s of None \<Rightarrow> s
             | Some L \<Rightarrow> s\<lparr>calls := calls s @ [Open k (kiv e) (kkey e)]\<rparr>"
  have m: "kb_master ?s' = kb_master s" by (simp split: option.splits)
  show ?case
  proof (cases "decryptKeyLegacy (sjcl s) c k e")
    case None
    then have step: "decryptKeysLegacy_inner s c k (e # es) = decryptKeysLegacy_inner ?s' c k es"
      by (simp add: Let_def)
    then show ?thesis using Cons.prems Cons.IH[of ?s'] m by simp
  next
    case (Some master)
    then show ?thesis using Cons.prems by (simp add: Let_def)
  qed
qed

lemma decryptKeysLegacy_outer_master:
  "fst (decryptKeysLegacy_outer s dks) \<noteq> Inr True \<Longrightarrow>
   kb_master (snd (decryptKeysLegacy_outer s dks)) = kb_master s"
proof (induction dks arbitrary: s)
  case Nil
  then show ?case by simp
next
  case (Cons k dks)
  show ?case
  proof (cases "kb_cipherobj s")
    case None
    then show ?thesis by simp
  next
    case (Some c)
    obtain b s' where i: "decryptKeysLegacy_inner s c k (keys c) = (b, s')"
      by (cases "decryptKeysLegacy_inner s c k (keys c)")
    show ?thesis
    proof (cases b)
      case True
      then show ?thesis using Cons.prems Some i by simp
    next
      case False
      then have m: "kb_master s' = kb_master s"
        using decryptKeysLegacy_inner_master[of s c k "keys c"] i by simp
      have "fst (decryptKeysLegacy_outer s' dks) \<noteq> Inr True"
        using Cons.prems Some i False by simp
      then have "kb_master (snd (decryptKeysLegacy_outer s' dks)) = kb_master s'"
        by (rule Cons.IH)
      then show ?thesis using Some i False m by simp
    qed
  qed
qed

text \<open>
  C10. Whenever \<open>decryptKeys\<close> or \<open>decryptKeysLegacy\<close> does not return true (it returns
  false, or throws), \<open>_master\<close> is what it was before the call.
\<close>

theorem C10_failed_trial_keeps_master:
  "(fst (decryptKeys E s) \<noteq> Inr True \<longrightarrow> kb_master (snd (decryptKeys E s)) = kb_master s) \<and>
   (fst (decryptKeysLegacy s) \<noteq> Inr True \<longrightarrow> kb_master (snd (decryptKeysLegacy s)) = kb_master s)"
proof -
  have l: "fst (decryptKeysLegacy s) \<noteq> Inr True \<longrightarrow> kb_master (snd (decryptKeysLegacy s)) = kb_master s"
    unfolding decryptKeysLegacy_def using decryptKeysLegacy_outer_master by blast
  have "fst (decryptKeys E s) \<noteq> Inr True \<longrightarrow> kb_master (snd (decryptKeys E s)) = kb_master s"
    using l decryptKeys_outer_master[of E s "kb_keys s"]
    by (auto simp: decryptKeys_def split: option.splits)
  with l show ?thesis by blast
qed

theorem C10_failed_trial_keeps_master_witness:
  "fst (decryptKeys demo_library (demo_state [U8 [3], U8 [4]])) = Inr False \<and>
   kb_master (snd (decryptKeys demo_library (demo_state [U8 [3], U8 [4]]))) = U8 [5] \<and>
   fst (decryptKeysLegacy (demo_state [U8 [3], U8 [4]])) = Inr False \<and>
   kb_master (snd (decryptKeysLegacy (demo_state [U8 [3], U8 [4]]))) = U8 [5]"
proof -
  have a: "fst (decryptKeys demo_library (demo_state [U8 [3], U8 [4]])) = Inr False"
    by (simp add: decryptKeys_def demo_state_def keybearer_def demo_cipherobj_def
        decryptChaCha20Poly1305_def demo_library_def)
  have b: "fst (decryptKeysLegacy (demo_state [U8 [3], U8 [4]])) = Inr False"
    by (simp add: decryptKeysLegacy_def demo_state_def keybearer_def demo_cipherobj_def
        decryptKeyLegacy_def)
  have m: "kb_master (demo_state [U8 [3], U8 [4]]) = U8 [5]"
    by (simp add: demo_state_def)
  show ?thesis
    using C10_failed_trial_keeps_master[of demo_library "demo_state [U8 [3], U8 [4]]"] a b m
    by simp
qed

section \<open>Random numbers and the shuffle\<close>

lemma fst_getRandomBytes: "fst (getRandomBytes s n) = map (entropy s) [entropy_pos s ..< entropy_pos s + n]"
  by (simp add: getRandomBytes_def)

lemma snd_getRandomBytes: "snd (getRandomBytes s n) = s\<lparr>entropy_pos := entropy_pos s + n\<rparr>"
  by (simp add: getRandomBytes_def)

lemma length_getRandomBytes: "length (fst (getRandomBytes s n)) = n"
  by (simp add: getRandomBytes_def)

lemma resample_returns_aux:
  "u32 (map (entropy s) [entropy_pos s + 4 * k ..< entropy_pos s + 4 * k + 4]) < maxValid \<Longrightarrow>
   \<exists>x p. resample s maxValid val = Some (x, s\<lparr>entropy_pos := p\<rparr>) \<and> x < maxValid"
proof (induction k arbitrary: s val)
  case 0
  show ?case
  proof (cases "maxValid \<le> val")
    case False
    then have "resample s maxValid val = Some (val, s\<lparr>entropy_pos := entropy_pos s\<rparr>)"
      by (subst resample.simps) simp
    then show ?thesis using False by (metis not_le)
  next
    case True
    let ?w = "u32 (fst (getRandomBytes s 4))"
    let ?s1 = "snd (getRandomBytes s 4)"
    have w: "?w < maxValid" using 0 by (simp add: fst_getRandomBytes)
    have "resample s maxValid val = resample ?s1 maxValid ?w"
      using True by (subst resample.simps) simp
    also have "\<dots> = Some (?w, ?s1)"
      using w by (subst resample.simps) simp
    finally show ?thesis using w by (metis snd_getRandomBytes)
  qed
next
  case (Suc k)
  show ?case
  proof (cases "maxValid \<le> val")
    case False
    then have "resample s maxValid val = Some (val, s\<lparr>entropy_pos := entropy_pos s\<rparr>)"
      by (subst resample.simps) simp
    then show ?thesis using False by (metis not_le)
  next
    case True
    let ?w = "u32 (fst (getRandomBytes s 4))"
    let ?s1 = "snd (getRandomBytes s 4)"
    have e: "resample s maxValid val = resample ?s1 maxValid ?w"
      using True by (subst resample.simps) simp
    have "u32 (map (entropy ?s1) [entropy_pos ?s1 + 4 * k ..< entropy_pos ?s1 + 4 * k + 4]) < maxValid"
      using Suc.prems by (simp add: snd_getRandomBytes add.assoc)
    then obtain x p where "resample ?s1 maxValid ?w = Some (x, ?s1\<lparr>entropy_pos := p\<rparr>)" "x < maxValid"
      using Suc.IH[of ?s1 ?w] by blast
    then show ?thesis using e by (simp add: snd_getRandomBytes) blast
  qed
qed

lemma resample_returns:
  assumes "entropy_fair (entropy s)" and "2147483648 \<le> maxValid"
  shows "\<exists>x p. resample s maxValid val = Some (x, s\<lparr>entropy_pos := p\<rparr>) \<and> x < maxValid"
proof -
  obtain k where "u32 (map (entropy s) [entropy_pos s + 4 * k ..< entropy_pos s + 4 * k + 4]) < 2147483648"
    using assms(1) unfolding entropy_fair_def by blast
  then have "u32 (map (entropy s) [entropy_pos s + 4 * k ..< entropy_pos s + 4 * k + 4]) < maxValid"
    using assms(2) by simp
  then show ?thesis by (rule resample_returns_aux)
qed

lemma maxValid_bound:
  assumes "0 < mx" and "mx \<le> 2147483648"
  shows "(2147483648::nat) \<le> 4294967295 div mx * mx"
proof -
  have "4294967295 div mx * mx + 4294967295 mod mx = 4294967295"
    by (rule div_mult_mod_eq)
  moreover have "4294967295 mod mx < mx" using assms(1) by simp
  ultimately show ?thesis using assms(2) by linarith
qed

lemma randto_shape:
  assumes "0 < mx" and "randto s mx 1 = Some (r, s')"
  shows "\<exists>j. r = [Some j] \<and> j < mx"
  using assms
  by (auto simp: randto_def randomIntegers_def Let_def split: option.splits)

lemma randto_one:
  assumes "entropy_fair (entropy s)" and "0 < mx" and "mx \<le> 2147483648"
  shows "\<exists>j p. randto s mx 1 = Some ([Some j], s\<lparr>entropy_pos := p\<rparr>) \<and> j < mx"
proof -
  let ?s1 = "snd (getRandomBytes s (1 * 4))"
  let ?v = "u32 (take 4 (drop (4 * 0) (fst (getRandomBytes s (1 * 4)))))"
  have f: "entropy_fair (entropy ?s1)" using assms(1) by (simp add: snd_getRandomBytes)
  have b: "2147483648 \<le> 4294967295 div mx * mx" using assms(2,3) by (rule maxValid_bound)
  obtain x p where r: "resample ?s1 (4294967295 div mx * mx) ?v = Some (x, ?s1\<lparr>entropy_pos := p\<rparr>)"
    using resample_returns[OF f b] by blast
  have "randto s mx 1 = Some ([Some (x mod mx)], ?s1\<lparr>entropy_pos := p\<rparr>)"
    using assms(2) r by (simp add: randto_def randomIntegers_def Let_def)
  moreover have "x mod mx < mx" using assms(2) by simp
  ultimately show ?thesis by (simp add: snd_getRandomBytes) blast
qed

lemma shuffle_loop_returns:
  assumes "entropy_fair (entropy s)" and "i < length arr" and "length arr \<le> 2147483648"
  shows "\<exists>arr' p. shuffle_loop s arr i = Some (arr', s\<lparr>entropy_pos := p\<rparr>) \<and> mset arr' = mset arr"
  using assms
proof (induction i arbitrary: s arr)
  case 0
  have "shuffle_loop s arr 0 = Some (arr, s\<lparr>entropy_pos := entropy_pos s\<rparr>)" by simp
  then show ?case by blast
next
  case (Suc i)
  obtain j p where r: "randto s (Suc i + 1) 1 = Some ([Some j], s\<lparr>entropy_pos := p\<rparr>)" and j: "j < Suc i + 1"
    using randto_one[OF Suc.prems(1), of "Suc i + 1"] Suc.prems(2,3) by auto
  let ?s' = "s\<lparr>entropy_pos := p\<rparr>"
  let ?arr = "arr[Suc i := arr ! j, j := arr ! Suc i]"
  have m: "mset ?arr = mset arr"
    using j Suc.prems(2) by (simp add: mset_swap)
  have "\<exists>arr' p'. shuffle_loop ?s' ?arr i = Some (arr', ?s'\<lparr>entropy_pos := p'\<rparr>) \<and> mset arr' = mset ?arr"
    using Suc.prems by (intro Suc.IH) simp_all
  then obtain arr' p' where "shuffle_loop ?s' ?arr i = Some (arr', ?s'\<lparr>entropy_pos := p'\<rparr>)"
      and "mset arr' = mset ?arr" by blast
  then have "shuffle_loop s arr (Suc i) = Some (arr', s\<lparr>entropy_pos := p'\<rparr>) \<and> mset arr' = mset arr"
    using r m by simp
  then show ?case by blast
qed

lemma shuffle_returns:
  assumes "entropy_fair (entropy s)" and "length arr \<le> 2147483648"
  shows "\<exists>arr' p. shuffle s arr = Some (arr', s\<lparr>entropy_pos := p\<rparr>) \<and> mset arr' = mset arr"
proof (cases "length arr = 0")
  case True
  then have "shuffle s arr = Some (arr, s\<lparr>entropy_pos := entropy_pos s\<rparr>)" by (simp add: shuffle_def)
  then show ?thesis by blast
next
  case False
  then show ?thesis using shuffle_loop_returns[OF assms(1), of "length arr - 1" arr] assms(2)
    by (simp add: shuffle_def)
qed

lemma shuffle_loop_length:
  "shuffle_loop s arr i = Some (arr', s') \<Longrightarrow> length arr' = length arr"
proof (induction i arbitrary: s arr)
  case 0
  then show ?case by simp
next
  case (Suc i)
  then show ?case
    by (auto simp: Let_def split: option.splits prod.splits list.splits)
qed

lemma shuffle_length: "shuffle s arr = Some (arr', s') \<Longrightarrow> length arr' = length arr"
  by (auto simp: shuffle_def shuffle_loop_length split: if_splits)

section \<open>Consequences of the contracts\<close>

lemma kdf_total_returns: "kdf_total E \<Longrightarrow> kdf_returns E slt it cs"
  unfolding kdf_total_def kdf_returns_def by blast

lemma kdf_returns_sub: "kdf_returns E slt it cs \<Longrightarrow> set cs' \<subseteq> set cs \<Longrightarrow> kdf_returns E slt it cs'"
  unfolding kdf_returns_def by blast

lemma dk_eq:
  assumes "kdf_returns E slt it cs" and "c \<in> set cs"
  shows "pbkdf2_sha256 E (utf8_encode E c) (U8 slt) it 32 = Inr (dk E slt it c)"
    and "length (dk E slt it c) = 32"
proof -
  obtain k where k: "pbkdf2_sha256 E (utf8_encode E c) (U8 slt) it 32 = Inr k" "length k = 32"
    using assms unfolding kdf_returns_def by blast
  then have "dk E slt it c = k" by (simp add: dk_def)
  with k show "pbkdf2_sha256 E (utf8_encode E c) (U8 slt) it 32 = Inr (dk E slt it c)"
    and "length (dk E slt it c) = 32" by simp_all
qed

lemma ucast_byte_id: "(ucast (ucast (b :: 8 word) :: 16 word) :: 8 word) = b"
  by (rule bit_word_eqI) (simp add: bit_ucast_iff)

lemma ucast_byte_roundtrip: "map ucast (map ucast (bs :: byte list) :: 16 word list) = bs"
  by (induction bs) (simp_all add: ucast_byte_id)

lemma b64_eq:
  assumes "base64_roundtrip E"
  shows "encodeBase64 E (U8 bs) = Inr (b64 E bs)" and "decodeBase64 E (b64 E bs) = Inr (U8 bs)"
proof -
  obtain t where t: "btoa E (map ucast bs) = Inr t" "atob E t = Inr (map ucast bs)"
    using assms unfolding base64_roundtrip_def by blast
  then have b: "b64 E bs = t" by (simp add: b64_def)
  show "encodeBase64 E (U8 bs) = Inr (b64 E bs)" using t b by (simp add: encodeBase64_def)
  show "decodeBase64 E (b64 E bs) = Inr (U8 bs)"
    using t b by (simp add: decodeBase64_def ucast_byte_roundtrip del: map_map)
qed

lemma makeKeyFromPassword_noble:
  assumes "kdf_returns E slt (pbkdf2_iterations s) cs" and "c \<in> set cs"
    and "kb_salt s = U8 slt" and "aes_key_strength s = 32"
  shows "makeKeyFromPassword E s c =
           (Inr (U8 (dk E slt (pbkdf2_iterations s) c)), s\<lparr>calls := calls s @ [Derive c]\<rparr>)"
  using assms(3,4) dk_eq(1)[OF assms(1,2)]
  by (simp add: makeKeyFromPassword_def deriveKeyFromPassword_def Let_def split: option.splits)

lemma makeKeyCombinations_loop_eq:
  assumes "kdf_returns E slt (pbkdf2_iterations s) cs"
    and "kb_salt s = U8 slt" and "aes_key_strength s = 32"
  shows "makeKeyCombinations_loop E s cs =
           (Inr (kb_keys s @ map (\<lambda>c. U8 (dk E slt (pbkdf2_iterations s) c)) cs),
            s\<lparr>kb_keys := kb_keys s @ map (\<lambda>c. U8 (dk E slt (pbkdf2_iterations s) c)) cs,
              calls := calls s @ map Derive cs\<rparr>)"
  using assms
proof (induction cs arbitrary: s)
  case Nil
  then show ?case by simp
next
  case (Cons c cs)
  let ?s' = "s\<lparr>calls := calls s @ [Derive c],
               kb_keys := kb_keys s @ [U8 (dk E slt (pbkdf2_iterations s) c)]\<rparr>"
  have "makeKeyCombinations_loop E s (c # cs) = makeKeyCombinations_loop E ?s' cs"
    using makeKeyFromPassword_noble[OF Cons.prems(1) _ Cons.prems(2,3), of c] by simp
  also have "\<dots> = (Inr (kb_keys ?s' @ map (\<lambda>c. U8 (dk E slt (pbkdf2_iterations ?s') c)) cs),
            ?s'\<lparr>kb_keys := kb_keys ?s' @ map (\<lambda>c. U8 (dk E slt (pbkdf2_iterations ?s') c)) cs,
              calls := calls ?s' @ map Derive cs\<rparr>)"
    using Cons.prems by (intro Cons.IH) (simp_all add: kdf_returns_def)
  finally show ?case by simp
qed

lemma makeKeyCombinations_eq:
  assumes "kdf_returns E slt (pbkdf2_iterations s)
             (map space_join (choose_lists (nat M) (sort (map normalizeString passwords))))"
    and "kb_salt s = U8 slt" and "aes_key_strength s = 32" and "1 \<le> M"
  shows "makeKeyCombinations E s passwords (Some M) =
     (Inr (map (\<lambda>c. U8 (dk E slt (pbkdf2_iterations s) c))
             (map space_join (choose_lists (nat M) (sort (map normalizeString passwords))))),
      s\<lparr>kb_keys := map (\<lambda>c. U8 (dk E slt (pbkdf2_iterations s) c))
                       (map space_join (choose_lists (nat M) (sort (map normalizeString passwords)))),
        kb_nPasswords := Some (int (length passwords)), kb_nToUnlock := Some M,
        calls := calls s @ map Derive
                   (map space_join (choose_lists (nat M) (sort (map normalizeString passwords))))\<rparr>)"
proof -
  let ?s1 = "s\<lparr>kb_keys := [], kb_nPasswords := Some (int (length passwords)), kb_nToUnlock := Some M\<rparr>"
  have "kdf_returns E slt (pbkdf2_iterations ?s1)
          (map space_join (choose_lists (nat M) (sort (map normalizeString passwords))))"
    "kb_salt ?s1 = U8 slt" "aes_key_strength ?s1 = 32" using assms by simp_all
  from makeKeyCombinations_loop_eq[OF this] assms(4)
  show ?thesis
    by (simp add: makeKeyCombinations_def makeCombinedPasswords_eq del: makeKeyCombinations_loop.simps)
qed

lemma augmentWithEncryptedKeys_loop_returns:
  assumes "aead_correct E" and "kb_master s = U8 mk" and "length mk = 32"
    and "\<forall>k \<in> set dks. \<exists>kb. k = U8 kb \<and> length kb = 32"
  shows "\<exists>entries p cl. augmentWithEncryptedKeys_loop E s dks acc =
            (Inr (acc @ entries), s\<lparr>entropy_pos := p, calls := cl\<rparr>) \<and>
          list_all2 (wraps E mk) dks entries"
  using assms(2,4)
proof (induction dks arbitrary: s acc)
  case Nil
  have "augmentWithEncryptedKeys_loop E s [] acc =
          (Inr (acc @ []), s\<lparr>entropy_pos := entropy_pos s, calls := calls s\<rparr>)" by simp
  then show ?case by (metis list_all2_Nil)
next
  case (Cons k dks)
  obtain kb where kb: "k = U8 kb" "length kb = 32" using Cons.prems(2) by auto
  let ?n = "fst (getRandomBytes s 12)"
  let ?s1 = "snd (getRandomBytes s 12)"
  have ln: "length ?n = 12" by (rule length_getRandomBytes)
  obtain c where c: "chacha_encrypt E (U8 kb) (U8 ?n) (U8 []) (U8 mk) = Inr c"
    using assms(1) kb(2) ln assms(3) unfolding aead_correct_def by blast
  let ?s2 = "?s1\<lparr>calls := calls ?s1 @ [Seal k (U8 ?n) (kb_master ?s1)]\<rparr>"
  let ?e = "\<lparr>kiv = U8 ?n, kkey = U8 c\<rparr>"
  have m1: "kb_master ?s1 = U8 mk" using Cons.prems(1) by (simp add: snd_getRandomBytes)
  have step: "augmentWithEncryptedKeys_loop E s (k # dks) acc =
              augmentWithEncryptedKeys_loop E ?s2 dks (acc @ [?e])"
    using c kb(1) m1 by (simp add: encryptChaCha20Poly1305_def Let_def)
  have w: "wraps E mk k ?e" using c kb(1) ln unfolding wraps_def by blast
  have "kb_master ?s2 = U8 mk" using m1 by simp
  moreover have "\<forall>k \<in> set dks. \<exists>kb. k = U8 kb \<and> length kb = 32" using Cons.prems(2) by simp
  ultimately obtain entries p cl where
      r: "augmentWithEncryptedKeys_loop E ?s2 dks (acc @ [?e]) =
            (Inr ((acc @ [?e]) @ entries), ?s2\<lparr>entropy_pos := p, calls := cl\<rparr>)"
      and l: "list_all2 (wraps E mk) dks entries"
    using Cons.IH[of ?s2 "acc @ [?e]"] by blast
  have "augmentWithEncryptedKeys_loop E s (k # dks) acc =
          (Inr (acc @ (?e # entries)), s\<lparr>entropy_pos := p, calls := cl\<rparr>)"
    using step r by (simp add: snd_getRandomBytes)
  moreover have "list_all2 (wraps E mk) (k # dks) (?e # entries)" using w l by simp
  ultimately show ?case by blast
qed

section \<open>Serialising and parsing an envelope\<close>

lemma is_u8_bytes_of: "is_u8 b \<Longrightarrow> U8 (bytes_of b) = b"
  by (cases b) simp_all

lemma encodeBase64_u8:
  "base64_roundtrip E \<Longrightarrow> is_u8 b \<Longrightarrow> encodeBase64 E b = Inr (b64 E (bytes_of b))"
  by (cases b) (simp_all add: b64_eq)

lemma decodeBase64_u8:
  "base64_roundtrip E \<Longrightarrow> is_u8 b \<Longrightarrow> decodeBase64 E (b64 E (bytes_of b)) = Inr b"
  by (cases b) (simp_all add: b64_eq)

lemma encodeKeys_u8:
  assumes "base64_roundtrip E"
  shows "list_all (\<lambda>e. is_u8 (kiv e) \<and> is_u8 (kkey e)) es \<Longrightarrow>
         encodeKeys E es = Inr (map (encode_entry E) es)"
  by (induction es) (simp_all add: encodeBase64_u8[OF assms] encode_entry_def)

lemma decodeKeys_u8:
  assumes "base64_roundtrip E"
  shows "list_all (\<lambda>e. is_u8 (kiv e) \<and> is_u8 (kkey e)) es \<Longrightarrow>
         decodeKeys (decodeBase64 E) (map (encode_entry E) es) = Inr es"
  by (induction es) (simp_all add: decodeBase64_u8[OF assms] encode_entry_def)

lemma getCipherJSON_u8:
  assumes "base64_roundtrip E" and "kb_cipherobj s = Some c" and "all_u8 c"
  shows "getCipherJSON E s = (Inr (json_stringify E (encoded E c)), s)"
  using assms(2,3)
  by (simp add: getCipherJSON_def all_u8_def encodeBase64_u8[OF assms(1)] encodeKeys_u8[OF assms(1)]
      encoded_def)

lemma decodeFields_encoded:
  assumes "base64_roundtrip E" and "all_u8 c"
  shows "decodeFields (decodeBase64 E) (encoded E c) = Inr c"
  using assms(2)
  by (cases c)
     (simp add: decodeFields_def all_u8_def decodeBase64_u8[OF assms(1)] decodeKeys_u8[OF assms(1)]
      encoded_def)

lemma isLegacyFormat_encoded: "isLegacyFormat (encoded E c) = isLegacyFormat c"
  by (simp add: isLegacyFormat_def encoded_def)

lemma setCipherJSON_encoded:
  assumes "base64_roundtrip E" and "json_roundtrip E" and "all_u8 c" and "\<not> isLegacyFormat c"
  shows "setCipherJSON E s (json_stringify E (encoded E c)) =
     (Inr (), s\<lparr>kb_salt := salt c, kb_nPasswords := nkeys c, kb_nToUnlock := nunlock c,
                 kb_filename := fn c, kb_filetype := ft c, pbkdf2_iterations := iter c,
                 kb_cipherobj := Some c\<rparr>)"
proof -
  have p: "json_parse E (json_stringify E (encoded E c)) = Inr (encoded E c)"
    using assms(2) unfolding json_roundtrip_def by blast
  show ?thesis
    using assms(4)
    by (simp add: setCipherJSON_def p isLegacyFormat_encoded decodeFields_encoded[OF assms(1,3)]
        setPBKDF2Iterations_def setFileType_def setFileName_def)
qed

lemma wraps_is_u8: "wraps E mk k e \<Longrightarrow> is_u8 (kiv e) \<and> is_u8 (kkey e)"
  unfolding wraps_def by auto

lemma list_all2_wraps_u8:
  "list_all2 (wraps E mk) dks entries \<Longrightarrow> list_all (\<lambda>e. is_u8 (kiv e) \<and> is_u8 (kkey e)) entries"
  by (induction rule: list_all2_induct) (simp_all add: wraps_is_u8)

lemma augmentWithEncryptedKeys_returns:
  assumes "aead_correct E" and "kb_master s = U8 mk" and "length mk = 32"
    and "\<forall>k \<in> set (kb_keys s). \<exists>kb. k = U8 kb \<and> length kb = 32"
    and "entropy_fair (entropy s)" and "length (kb_keys s) \<le> 2147483648"
  shows "\<exists>entries arr p cl. augmentWithEncryptedKeys E s obj =
            Some (Inr (obj\<lparr>keys := arr\<rparr>), s\<lparr>entropy_pos := p, calls := cl\<rparr>) \<and>
          mset arr = mset entries \<and> list_all2 (wraps E mk) (kb_keys s) entries"
proof -
  obtain entries p cl where
      l: "augmentWithEncryptedKeys_loop E s (kb_keys s) [] =
            (Inr ([] @ entries), s\<lparr>entropy_pos := p, calls := cl\<rparr>)"
      and w: "list_all2 (wraps E mk) (kb_keys s) entries"
    using augmentWithEncryptedKeys_loop_returns[OF assms(1,2,3,4), of "[]"] by blast
  let ?s1 = "s\<lparr>entropy_pos := p, calls := cl\<rparr>"
  have "length entries = length (kb_keys s)" using w by (simp add: list_all2_lengthD)
  then have le: "length entries \<le> 2147483648" using assms(6) by simp
  have f: "entropy_fair (entropy ?s1)" using assms(5) by simp
  obtain arr p' where sh: "shuffle ?s1 entries = Some (arr, ?s1\<lparr>entropy_pos := p'\<rparr>)"
      and m: "mset arr = mset entries"
    using shuffle_returns[OF f le] by blast
  have "augmentWithEncryptedKeys E s obj =
          Some (Inr (obj\<lparr>keys := arr\<rparr>), s\<lparr>entropy_pos := p', calls := cl\<rparr>)"
    using l sh by (simp add: augmentWithEncryptedKeys_def)
  then show ?thesis using m w by blast
qed

section \<open>What the encryption path returns\<close>

lemma list_all_mset_cong:
  "mset xs = mset ys \<Longrightarrow> list_all P xs = list_all P ys"
  by (metis list_all_iff mset_eq_setD)

lemma encryptPlaintext_returns:
  assumes "aead_correct E" and "base64_roundtrip E"
    and "kb_master s = U8 mk" and "length mk = 32" and "kb_salt s = U8 slt"
    and "\<forall>k \<in> set (kb_keys s). \<exists>kb. k = U8 kb \<and> length kb = 32"
    and "entropy_fair (entropy s)" and "length (kb_keys s) \<le> 2147483648"
  shows "\<exists>c s'. encryptPlaintext E s (U8 pt) = Some (Inr (json_stringify E (encoded E c)), s') \<and>
           sealed_for E mk pt (kb_keys s) c \<and> v c = JNum 2 \<and> mode c = aes_cipher_mode s \<and>
           salt c = U8 slt \<and> iter c = pbkdf2_iterations s \<and> nunlock c = kb_nToUnlock s \<and>
           nkeys c = kb_nPasswords s"
proof -
  let ?n0 = "fst (getRandomBytes s 12)"
  let ?p = "fst (makeMetadataObject s)"
  let ?s1 = "snd (makeMetadataObject s)"
  have ln: "length ?n0 = 12" by (rule length_getRandomBytes)
  obtain ct0 where ct0: "chacha_encrypt E (U8 mk) (U8 ?n0) (U8 []) (U8 pt) = Inr ct0"
    using assms(1,4) ln unfolding aead_correct_def by blast
  have s1: "?s1 = s\<lparr>entropy_pos := entropy_pos s + 12\<rparr>"
    by (simp add: makeMetadataObject_def snd_getRandomBytes)
  have ivp: "iv ?p = U8 ?n0" by (simp add: makeMetadataObject_def)
  let ?s2 = "?s1\<lparr>kb_lastMetadata := Some ?p\<rparr>"
  let ?s3 = "?s2\<lparr>calls := calls ?s2 @ [Seal (U8 mk) (U8 ?n0) (U8 pt)]\<rparr>"
  have e1: "encryptChaCha20Poly1305 E ?s2 (kb_master ?s2) (U8 pt) (iv ?p) (U8 []) =
              (Inr (ct0, U8 ?n0), ?s3)"
    using ct0 assms(3) by (simp add: encryptChaCha20Poly1305_def Let_def ivp s1)
  let ?p' = "?p\<lparr>ct := U8 ct0, iv := U8 ?n0\<rparr>"
  let ?s4 = "?s3\<lparr>kb_lastMetadata := Some ?p', kb_cipherobj := Some ?p'\<rparr>"
  have k4: "kb_keys ?s4 = kb_keys s" and m4: "kb_master ?s4 = U8 mk"
    and f4: "entropy_fair (entropy ?s4)"
    using assms(3,7) by (simp_all add: s1)
  obtain entries arr p cl where
      a: "augmentWithEncryptedKeys E ?s4 ?p' =
            Some (Inr (?p'\<lparr>keys := arr\<rparr>), ?s4\<lparr>entropy_pos := p, calls := cl\<rparr>)"
      and ms: "mset arr = mset entries" and w: "list_all2 (wraps E mk) (kb_keys s) entries"
    using augmentWithEncryptedKeys_returns[OF assms(1) m4 assms(4) _ f4, of ?p'] assms(6,8) k4
    by auto
  let ?c = "?p'\<lparr>keys := arr\<rparr>"
  let ?s6 = "?s4\<lparr>entropy_pos := p, calls := cl, kb_lastMetadata := Some ?c, kb_cipherobj := Some ?c\<rparr>"
  have "list_all (\<lambda>e. is_u8 (kiv e) \<and> is_u8 (kkey e)) arr"
    using list_all2_wraps_u8[OF w] list_all_mset_cong[OF ms] by blast
  then have u: "all_u8 ?c"
    using assms(5) by (simp add: all_u8_def makeMetadataObject_def)
  have g: "getCipherJSON E ?s6 = (Inr (json_stringify E (encoded E ?c)), ?s6)"
    by (rule getCipherJSON_u8[OF assms(2) _ u]) simp
  have r: "encryptPlaintext E s (U8 pt) = Some (Inr (json_stringify E (encoded E ?c)), ?s6)"
    unfolding encryptPlaintext_def Let_def
    using e1 a g by simp
  have sf: "sealed_for E mk pt (kb_keys s) ?c"
    unfolding sealed_for_def using u assms(4) ln ct0 ms w by auto
  have "v ?c = JNum 2 \<and> mode ?c = aes_cipher_mode s \<and> salt ?c = U8 slt \<and>
        iter ?c = pbkdf2_iterations s \<and> nunlock ?c = kb_nToUnlock s \<and> nkeys ?c = kb_nPasswords s"
    using assms(5) by (simp add: makeMetadataObject_def)
  with r sf show ?thesis by blast
qed

lemma choose_le_2pow31:
  assumes "n \<le> 31"
  shows "n choose k \<le> 2147483648"
proof -
  have "n choose k \<le> 2 ^ n" by (rule binomial_le_pow2)
  also have "(2::nat) ^ n \<le> 2 ^ 31" using assms by (intro power_increasing) simp_all
  finally show ?thesis by simp
qed

lemma encryptWithPasswords_returns_run:
  assumes "kdf_returns E slt (pbkdf2_iterations s) (combinations_of passwords M)"
    and "aead_correct E" and "base64_roundtrip E"
    and "kb_salt s = U8 slt" and "kb_plaintext s = U8 pt" and "aes_key_strength s = 32"
    and "1 \<le> M" and "entropy_fair (entropy s)" and "length passwords \<le> 31"
  shows "\<exists>c s'. encryptWithPasswords E s passwords (Some M) =
             Some (Inr (json_stringify E (encoded E c)), s') \<and>
           sealed_for E (fst (getRandomBytes s 32)) pt
             (map (\<lambda>cmb. U8 (dk E slt (pbkdf2_iterations s) cmb)) (combinations_of passwords M)) c \<and>
           v c = JNum 2 \<and> mode c = aes_cipher_mode s \<and> salt c = U8 slt \<and>
           iter c = pbkdf2_iterations s \<and> nunlock c = Some M \<and>
           nkeys c = Some (int (length passwords))"
proof -
  let ?derived = "map (\<lambda>cmb. U8 (dk E slt (pbkdf2_iterations s) cmb)) (combinations_of passwords M)"
  let ?s1 = "s\<lparr>kb_keys := ?derived, kb_nPasswords := Some (int (length passwords)),
               kb_nToUnlock := Some M, calls := calls s @ map Derive (combinations_of passwords M)\<rparr>"
  have mk: "makeKeyCombinations E s passwords (Some M) = (Inr ?derived, ?s1)"
    using makeKeyCombinations_eq[OF _ assms(4,6,7), of E passwords] assms(1)
    by (simp add: combinations_of_def)
  let ?mk = "fst (getRandomBytes ?s1 32)"
  have mk_s: "?mk = fst (getRandomBytes s 32)" by (simp add: getRandomBytes_def)
  let ?s2 = "makeAESKey ?s1"
  have s2: "?s2 = ?s1\<lparr>entropy_pos := entropy_pos s + 32, kb_master := U8 ?mk\<rparr>"
    using assms(6) by (simp add: makeAESKey_def snd_getRandomBytes)
  have lmk: "length ?mk = 32" by (rule length_getRandomBytes)
  have m2: "kb_master ?s2 = U8 ?mk" and sl2: "kb_salt ?s2 = U8 slt" and pt2: "kb_plaintext ?s2 = U8 pt"
    and k2: "kb_keys ?s2 = ?derived" and f2: "entropy_fair (entropy ?s2)"
    using assms(4,5,8) by (simp_all add: s2)
  have d32: "\<forall>k \<in> set (kb_keys ?s2). \<exists>kb. k = U8 kb \<and> length kb = 32"
    unfolding k2 using dk_eq(2)[OF assms(1)] by auto
  have "length (kb_keys ?s2) = length passwords choose nat M"
    unfolding k2 by (simp add: combinations_of_def length_choose_lists)
  then have le: "length (kb_keys ?s2) \<le> 2147483648"
    using choose_le_2pow31[OF assms(9)] by simp
  obtain c s' where
      r: "encryptPlaintext E ?s2 (U8 pt) = Some (Inr (json_stringify E (encoded E c)), s')"
      and sf: "sealed_for E ?mk pt (kb_keys ?s2) c"
      and fields: "v c = JNum 2" "mode c = aes_cipher_mode ?s2" "salt c = U8 slt"
         "iter c = pbkdf2_iterations ?s2" "nunlock c = kb_nToUnlock ?s2" "nkeys c = kb_nPasswords ?s2"
    using encryptPlaintext_returns[OF assms(2,3) m2 lmk sl2 d32 f2 le, of pt] by blast
  have "encryptWithPasswords E s passwords (Some M) = Some (Inr (json_stringify E (encoded E c)), s')"
    using mk r pt2 by (simp add: encryptWithPasswords_def)
  moreover have "sealed_for E (fst (getRandomBytes s 32)) pt ?derived c"
    using sf k2 mk_s by simp
  moreover have "v c = JNum 2 \<and> mode c = aes_cipher_mode s \<and> salt c = U8 slt \<and>
           iter c = pbkdf2_iterations s \<and> nunlock c = Some M \<and> nkeys c = Some (int (length passwords))"
    using fields by (simp add: s2)
  ultimately show ?thesis by blast
qed

lemma encryptWithPasswords_returns:
  assumes "kdf_total E" and "aead_correct E" and "base64_roundtrip E"
    and "kb_salt s = U8 slt" and "kb_plaintext s = U8 pt" and "aes_key_strength s = 32"
    and "1 \<le> M" and "entropy_fair (entropy s)" and "length passwords \<le> 31"
  shows "\<exists>c s' mk. encryptWithPasswords E s passwords (Some M) =
             Some (Inr (json_stringify E (encoded E c)), s') \<and>
           sealed_for E mk pt
             (map (\<lambda>cmb. U8 (dk E slt (pbkdf2_iterations s) cmb)) (combinations_of passwords M)) c \<and>
           v c = JNum 2 \<and> mode c = aes_cipher_mode s \<and> salt c = U8 slt \<and>
           iter c = pbkdf2_iterations s \<and> nunlock c = Some M \<and>
           nkeys c = Some (int (length passwords))"
  using encryptWithPasswords_returns_run[OF kdf_total_returns[OF assms(1)] assms(2-9)] by blast

section \<open>What the decryption steps recover\<close>

lemma product_single: "List.product [k] es = map (Pair k) es"
  by simp

lemma opens_own_entry:
  assumes "aead_correct E" and "wraps E mk (U8 kb) e" and "length kb = 32"
  shows "open_with E (U8 kb, e) = Inr mk"
proof -
  obtain n cc where n: "length n = 12" and e: "e = \<lparr>kiv = U8 n, kkey = U8 cc\<rparr>"
      and enc: "chacha_encrypt E (U8 kb) (U8 n) (U8 []) (U8 mk) = Inr cc"
    using assms(2) unfolding wraps_def by blast
  obtain c' where "chacha_encrypt E (U8 kb) (U8 n) (U8 []) (U8 mk) = Inr c'"
      "chacha_decrypt E (U8 kb) (U8 n) (U8 []) (U8 c') = Inr mk"
    using assms(1,3) n unfolding aead_correct_def by blast
  then show ?thesis using enc e by (simp add: open_with_def)
qed

lemma find_master:
  assumes "aead_correct E"
    and "opens_only_master E (map (\<lambda>cmb. U8 (dk E slt it cmb)) combos) mk"
    and "kdf_returns E slt it combos"
    and "mset es = mset entries"
    and "list_all2 (wraps E mk) (map (\<lambda>cmb. U8 (dk E slt it cmb)) combos) entries"
    and "target \<in> set combos"
  shows "\<exists>e. find (authenticates E) (map (Pair (U8 (dk E slt it target))) es) =
               Some (U8 (dk E slt it target), e) \<and>
             open_with E (U8 (dk E slt it target), e) = Inr mk"
proof -
  let ?K = "dk E slt it target"
  let ?derived = "map (\<lambda>cmb. U8 (dk E slt it cmb)) combos"
  have lK: "length ?K = 32" by (rule dk_eq(2)[OF assms(3,6)])
  have Kin: "U8 ?K \<in> set ?derived" using assms(6) by auto
  have auth: "\<forall>e \<in> set es. authenticates E (U8 ?K, e) \<longrightarrow> open_with E (U8 ?K, e) = Inr mk"
  proof (intro ballI impI)
    fix e assume ein: "e \<in> set es" and a: "authenticates E (U8 ?K, e)"
    have "e \<in> set entries" using ein assms(4) by (metis mset_eq_setD)
    then obtain k where k: "k \<in> set ?derived" "wraps E mk k e"
      using assms(5) by (metis in_set_conv_nth list_all2_conv_all_nth)
    obtain m where m: "open_with E (U8 ?K, e) = Inr m"
      using a by (cases "open_with E (U8 ?K, e)") (simp_all add: authenticates_def)
    have "m = mk" using assms(2) k Kin m unfolding opens_only_master_def by blast
    with m show "open_with E (U8 ?K, e) = Inr mk" by simp
  qed
  obtain e0 where "e0 \<in> set entries" and w0: "wraps E mk (U8 ?K) e0"
    using Kin assms(5) by (metis in_set_conv_nth list_all2_conv_all_nth)
  then have e0: "e0 \<in> set es" using assms(4) by (metis mset_eq_setD)
  have "open_with E (U8 ?K, e0) = Inr mk"
    by (rule opens_own_entry[OF assms(1) w0 lK])
  then have "authenticates E (U8 ?K, e0)" by (simp add: authenticates_def)
  then have "find (authenticates E) (map (Pair (U8 ?K)) es) \<noteq> None"
    using e0 by (auto simp: find_None_iff)
  then obtain t where t: "find (authenticates E) (map (Pair (U8 ?K)) es) = Some t" by blast
  then have "t \<in> set (map (Pair (U8 ?K)) es)" and at: "authenticates E t"
    using find_Some_in[OF t] by simp_all
  then obtain e where e: "t = (U8 ?K, e)" "e \<in> set es" by auto
  then have "open_with E (U8 ?K, e) = Inr mk" using auth at by blast
  then show ?thesis using t e by blast
qed

lemma e2e_decrypt_recovers:
  assumes "aead_correct E"
    and "opens_only_master E (map (\<lambda>cmb. U8 (dk E slt it cmb)) combos) mk"
    and "kdf_returns E slt it combos"
    and "base64_roundtrip E" and "json_roundtrip E"
    and sf: "sealed_for E mk pt (map (\<lambda>cmb. U8 (dk E slt it cmb)) combos) c"
    and nl: "\<not> isLegacyFormat c" and sc: "salt c = U8 slt" and ic: "iter c = it"
    and st: "aes_key_strength s = 32"
    and len: "length sub = nat M" and M: "1 \<le> M"
    and tg: "space_join (sort (map normalizeString sub)) \<in> set combos"
  shows "fst (e2e_decrypt E s (json_stringify E (encoded E c)) sub (Some M)) = Inr (U8 pt)"
proof -
  let ?target = "space_join (sort (map normalizeString sub))"
  let ?K = "dk E slt it ?target"
  have u: "all_u8 c" and lmk: "length mk = 32" using sf by (simp_all add: sealed_for_def)
  obtain n0 ct0 where iv: "iv c = U8 n0" and ln0: "length n0 = 12" and ct: "ct c = U8 ct0"
      and enc: "chacha_encrypt E (U8 mk) (U8 n0) (U8 []) (U8 pt) = Inr ct0"
    using sf unfolding sealed_for_def by blast
  obtain entries where ms: "mset (keys c) = mset entries"
      and w: "list_all2 (wraps E mk) (map (\<lambda>cmb. U8 (dk E slt it cmb)) combos) entries"
    using sf unfolding sealed_for_def by blast
  let ?s1 = "s\<lparr>kb_salt := salt c, kb_nPasswords := nkeys c, kb_nToUnlock := nunlock c,
                 kb_filename := fn c, kb_filetype := ft c, pbkdf2_iterations := iter c,
                 kb_cipherobj := Some c\<rparr>"
  have a1: "setCipherJSON E s (json_stringify E (encoded E c)) = (Inr (), ?s1)"
    by (rule setCipherJSON_encoded[OF assms(4,5) u nl])
  have "length (sort (map normalizeString sub)) = nat M" using len by simp
  then have one: "choose_lists (nat M) (sort (map normalizeString sub)) = [sort (map normalizeString sub)]"
    using choose_lists_all[of "sort (map normalizeString sub)"] by simp
  have kt: "kdf_returns E slt (pbkdf2_iterations ?s1)
              (map space_join (choose_lists (nat M) (sort (map normalizeString sub))))"
    using kdf_returns_sub[OF assms(3), of "[?target]"] tg ic one by simp
  let ?s2 = "?s1\<lparr>kb_keys := [U8 ?K], kb_nPasswords := Some (int (length sub)),
                 kb_nToUnlock := Some M, calls := calls s @ [Derive ?target]\<rparr>"
  have a2: "makeKeyCombinations E ?s1 sub (Some M) = (Inr [U8 ?K], ?s2)"
    using makeKeyCombinations_eq[OF kt] sc ic st M one by simp
  obtain e where f: "find (authenticates E) (map (Pair (U8 ?K)) (keys c)) = Some (U8 ?K, e)"
      and o: "open_with E (U8 ?K, e) = Inr mk"
    using find_master[OF assms(1,2,3) ms w tg] by blast
  let ?s3 = "?s2\<lparr>calls := calls ?s2 @ map open_call
                          (takeWhile (\<lambda>t. \<not> authenticates E t) (List.product [U8 ?K] (keys c))
                           @ [(U8 ?K, e)]),
                 kb_master := U8 mk\<rparr>"
  have "decryptKeys_outer E ?s2 [U8 ?K] = (Inr True, ?s3)"
    using decryptKeys_outer_eq[of ?s2 c E "[U8 ?K]"] f o by simp
  then have a3: "decryptKeys E ?s2 = (Inr True, ?s3)"
    using nl by (simp add: decryptKeys_def split: option.splits)
  obtain c' where "chacha_encrypt E (U8 mk) (U8 n0) (U8 []) (U8 pt) = Inr c'"
      "chacha_decrypt E (U8 mk) (U8 n0) (U8 []) (U8 c') = Inr pt"
    using assms(1) lmk ln0 unfolding aead_correct_def by blast
  then have dec: "chacha_decrypt E (U8 mk) (U8 n0) (U8 []) (U8 ct0) = Inr pt"
    using enc by simp
  have a4: "fst (decryptCiphertext E ?s3) = Inr () \<and> kb_plaintext (snd (decryptCiphertext E ?s3)) = U8 pt"
    using nl dec iv ct
    by (simp add: decryptCiphertext_def decryptChaCha20Poly1305_def split: option.splits)
  obtain s4 where a4': "decryptCiphertext E ?s3 = (Inr (), s4)" and p4: "kb_plaintext s4 = U8 pt"
    using a4 by (cases "decryptCiphertext E ?s3") auto
  show ?thesis
    unfolding e2e_decrypt_def using a1 a2 a3 a4' p4 by (simp add: getPlaintext_def)
qed

section \<open>Round trip (C1)\<close>

text \<open>
  C1. Take a run of \<open>encryptWithPasswords\<close> on a plaintext, a list of at most 31
  passwords (in particular 2 to 8; they need not be distinct or non-blank) and a
  threshold \<open>M \<ge> 1\<close>. Let the AEAD, base64 and JSON keep their contracts and the random
  source be fair; let the key derivation return 32 bytes for the combinations of this
  run, with its salt and iteration count; and let no derived key of this run open, from
  the master key of this run sealed under another of them, anything but that master
  key. Then the run returns an envelope, and for every \<open>M\<close> of the passwords in any
  order the decryption steps (\<open>setCipherJSON\<close>, \<open>makeKeyCombinations\<close> on the supplied
  passwords, \<open>decryptKeys\<close>, \<open>decryptCiphertext\<close>), run on that envelope from any state
  of a keybearer with the default key length, return exactly the plaintext. The master
  key of the run is the next 32 bytes of the random source.
\<close>

theorem C1_round_trip:
  assumes "aead_correct E" and "base64_roundtrip E" and "json_roundtrip E"
    and "kdf_returns E slt (pbkdf2_iterations s) (combinations_of passwords M)"
    and "opens_only_master E
           (map (\<lambda>cmb. U8 (dk E slt (pbkdf2_iterations s) cmb)) (combinations_of passwords M))
           (fst (getRandomBytes s 32))"
    and "kb_salt s = U8 slt" and "kb_plaintext s = U8 pt"
    and "aes_key_strength s = 32" and "aes_cipher_mode s = js ''chacha20poly1305''"
    and "entropy_fair (entropy s)"
    and "length passwords \<le> 31" and "1 \<le> M"
    and "mset sub \<subseteq># mset passwords" and "int (length sub) = M"
    and "aes_key_strength s' = 32"
  shows "\<exists>j s1. encryptWithPasswords E s passwords (Some M) = Some (Inr j, s1) \<and>
                fst (e2e_decrypt E s' j sub (Some M)) = Inr (U8 pt)"
proof -
  let ?it = "pbkdf2_iterations s"
  let ?mk = "fst (getRandomBytes s 32)"
  obtain c s1 where
      enc: "encryptWithPasswords E s passwords (Some M) = Some (Inr (json_stringify E (encoded E c)), s1)"
      and sf: "sealed_for E ?mk pt (map (\<lambda>cmb. U8 (dk E slt ?it cmb)) (combinations_of passwords M)) c"
      and vc: "v c = JNum 2" and mc: "mode c = aes_cipher_mode s"
      and sc: "salt c = U8 slt" and ic: "iter c = ?it"
    using encryptWithPasswords_returns_run[OF assms(4,1,2,6,7,8,12,10,11)] by blast
  have nl: "\<not> isLegacyFormat c"
    using vc mc assms(9) by (simp add: isLegacyFormat_def js_modes)
  have len: "length sub = nat M" using assms(14) by auto
  have "mset (map normalizeString sub) \<subseteq># mset (map normalizeString passwords)"
    using assms(13) by (simp add: image_mset_subseteq_mono)
  then have "subseq (sort (map normalizeString sub)) (sort (map normalizeString passwords))"
    by (rule sort_submset_subseq)
  then have "sort (map normalizeString sub) \<in>
               set (choose_lists (nat M) (sort (map normalizeString passwords)))"
    using len by (simp add: set_choose_lists)
  then have tg: "space_join (sort (map normalizeString sub)) \<in> set (combinations_of passwords M)"
    by (simp add: combinations_of_def)
  have "fst (e2e_decrypt E s' (json_stringify E (encoded E c)) sub (Some M)) = Inr (U8 pt)"
    by (rule e2e_decrypt_recovers[OF assms(1,5,4,2,3) sf nl sc ic assms(15) len assms(12) tg])
  with enc show ?thesis by blast
qed

lemma demo_aead_correct: "aead_correct demo_library"
  by (simp add: aead_correct_def demo_library_def)

lemma demo_opens_only_master:
  assumes "\<forall>k \<in> set dks. \<exists>kb. k = U8 kb \<and> length kb = 32"
  shows "opens_only_master demo_library dks mk"
  unfolding opens_only_master_def
proof (intro ballI allI impI)
  fix k k' e m
  assume k: "k \<in> set dks" and k': "k' \<in> set dks" and w: "wraps demo_library mk k e"
    and o: "open_with demo_library (k', e) = Inr m"
  obtain kb where kb: "k = U8 kb" "length kb = 32" using assms k by blast
  obtain kb' where kb': "k' = U8 kb'" "length kb' = 32" using assms k' by blast
  obtain n c where e: "e = \<lparr>kiv = U8 n, kkey = U8 c\<rparr>"
      and enc: "chacha_encrypt demo_library (U8 kb) (U8 n) (U8 []) (U8 mk) = Inr c"
    using w kb(1) unfolding wraps_def by blast
  have c: "c = kb @ mk" using enc by (simp add: demo_library_def)
  have "chacha_decrypt demo_library (U8 kb') (U8 n) (U8 []) (U8 (kb @ mk)) = Inr m"
    using o e c kb'(1) by (simp add: open_with_def)
  then show "m = mk"
    using kb(2) kb'(2) by (simp add: demo_library_def split: if_splits)
qed

lemma demo_kdf_total: "kdf_total demo_library"
  by (auto simp: kdf_total_def demo_library_def)

lemma demo_base64_roundtrip: "base64_roundtrip demo_library"
  by (simp add: base64_roundtrip_def demo_library_def)

lemma demo_json_roundtrip: "json_roundtrip demo_library"
  by (simp add: json_roundtrip_def demo_library_def)

lemma replicate_4: "replicate 4 x = [x, x, x, x]"
  by (simp add: numeral_eq_Suc)

lemma u32_zero: "u32 (replicate 4 0) = 0"
  by (simp add: replicate_4 u32_def)

lemma zero_entropy_fair: "entropy_fair (\<lambda>i. 0)"
  by (simp add: entropy_fair_def map_replicate_const u32_zero)

lemma demo_sender_fields:
  "kb_salt demo_sender = U8 (replicate 16 0)" "kb_plaintext demo_sender = U8 [1, 2, 3]"
  "aes_key_strength demo_sender = 32" "aes_cipher_mode demo_sender = js ''chacha20poly1305''"
  "entropy demo_sender = (\<lambda>i. 0)"
  by (simp_all add: demo_sender_def setPlaintext_def makeSalt_def keybearer_def getRandomBytes_def
      map_replicate_const)

theorem C1_round_trip_witness:
  "\<exists>j s1. encryptWithPasswords demo_library demo_sender [js ''a'', js ''b''] (Some 1) = Some (Inr j, s1) \<and>
          fst (e2e_decrypt demo_library (keybearer None (\<lambda>i. 0)) j [js ''b''] (Some 1)) = Inr (U8 [1, 2, 3])"
proof -
  let ?cs = "combinations_of [js ''a'', js ''b''] 1"
  let ?it = "pbkdf2_iterations demo_sender"
  have kr: "kdf_returns demo_library (replicate 16 0) ?it ?cs"
    by (rule kdf_total_returns[OF demo_kdf_total])
  have "\<forall>k \<in> set (map (\<lambda>cmb. U8 (dk demo_library (replicate 16 0) ?it cmb)) ?cs).
          \<exists>kb. k = U8 kb \<and> length kb = 32"
    using dk_eq(2)[OF kr] by auto
  then have om: "opens_only_master demo_library
           (map (\<lambda>cmb. U8 (dk demo_library (replicate 16 0) ?it cmb)) ?cs)
           (fst (getRandomBytes demo_sender 32))"
    by (rule demo_opens_only_master)
  have f: "entropy_fair (entropy demo_sender)"
    by (simp add: demo_sender_fields zero_entropy_fair)
  have l: "length [js ''a'', js ''b''] \<le> 31" by simp
  have m: "(1::int) \<le> 1" by simp
  have sub: "mset [js ''b''] \<subseteq># mset [js ''a'', js ''b'']" by simp
  have n: "int (length [js ''b'']) = 1" by simp
  have r: "aes_key_strength (keybearer None (\<lambda>i. 0)) = 32" by (simp add: keybearer_def)
  show ?thesis
    by (rule C1_round_trip[OF demo_aead_correct demo_base64_roundtrip demo_json_roundtrip kr om
          demo_sender_fields(1,2,3,4) f l m sub n r])
qed

section \<open>What every returned envelope satisfies\<close>

text \<open>The lemmas of this section assume nothing about the libraries or the random
  source: they read off the result of a call that has returned an envelope.\<close>

lemma encryptChaCha20Poly1305_state:
  "\<exists>p cl. snd (encryptChaCha20Poly1305 E s k pt n a) = s\<lparr>entropy_pos := p, calls := cl\<rparr>"
proof (cases "n = Null")
  case True
  have "snd (encryptChaCha20Poly1305 E s k pt n a) =
          s\<lparr>entropy_pos := entropy_pos s + 12,
            calls := calls s @ [Seal k (U8 (fst (getRandomBytes s 12))) pt]\<rparr>"
    using True by (simp add: encryptChaCha20Poly1305_def Let_def snd_getRandomBytes split: sum.splits)
  then show ?thesis by blast
next
  case False
  have "snd (encryptChaCha20Poly1305 E s k pt n a) =
          s\<lparr>entropy_pos := entropy_pos s, calls := calls s @ [Seal k n pt]\<rparr>"
    using False by (simp add: encryptChaCha20Poly1305_def Let_def split: sum.splits)
  then show ?thesis by blast
qed

lemma augmentWithEncryptedKeys_loop_length:
  "augmentWithEncryptedKeys_loop E s dks acc = (Inr out, s') \<Longrightarrow>
   length out = length acc + length dks \<and> kb_cipherobj s' = kb_cipherobj s"
proof (induction dks arbitrary: s acc)
  case Nil
  then show ?case by simp
next
  case (Cons k dks)
  let ?s1 = "snd (getRandomBytes s 12)"
  obtain r s2 where e: "encryptChaCha20Poly1305 E ?s1 k (kb_master ?s1) (U8 (fst (getRandomBytes s 12))) (U8 []) = (r, s2)"
    by (cases "encryptChaCha20Poly1305 E ?s1 k (kb_master ?s1) (U8 (fst (getRandomBytes s 12))) (U8 [])")
  obtain p cl where "s2 = ?s1\<lparr>entropy_pos := p, calls := cl\<rparr>"
    using encryptChaCha20Poly1305_state[of E ?s1 k "kb_master ?s1" "U8 (fst (getRandomBytes s 12))" "U8 []"] e
    by auto
  then have c2: "kb_cipherobj s2 = kb_cipherobj s" by (simp add: snd_getRandomBytes)
  show ?case
  proof (cases r)
    case (Inl err)
    then show ?thesis using Cons.prems e by (simp add: Let_def)
  next
    case (Inr cn)
    obtain c n where cn: "cn = (c, n)" by (cases cn)
    have "augmentWithEncryptedKeys_loop E s2 dks (acc @ [\<lparr>kiv = n, kkey = U8 c\<rparr>]) = (Inr out, s')"
      using Cons.prems e Inr cn by (simp add: Let_def)
    from Cons.IH[OF this] c2 show ?thesis by simp
  qed
qed

lemma augmentWithEncryptedKeys_inv:
  assumes "augmentWithEncryptedKeys E s obj = Some (Inr obj', s')"
  shows "length (keys obj') = length (kb_keys s) \<and> v obj' = v obj \<and> mode obj' = mode obj"
proof -
  obtain r s1 where l: "augmentWithEncryptedKeys_loop E s (kb_keys s) [] = (r, s1)"
    by (cases "augmentWithEncryptedKeys_loop E s (kb_keys s) []")
  show ?thesis
  proof (cases r)
    case (Inl e)
    then show ?thesis using assms l by (simp add: augmentWithEncryptedKeys_def)
  next
    case (Inr encKeys)
    then have len: "length encKeys = length (kb_keys s)"
      using augmentWithEncryptedKeys_loop_length[of E s "kb_keys s" "[]" encKeys s1] l by simp
    obtain arr s2 where sh: "shuffle s1 encKeys = Some (arr, s2)" and o: "obj' = obj\<lparr>keys := arr\<rparr>"
      using assms l Inr by (auto simp: augmentWithEncryptedKeys_def split: option.splits)
    have "length arr = length encKeys" using sh by (rule shuffle_length)
    then show ?thesis using o len by simp
  qed
qed

lemma encodeKeys_length: "encodeKeys E es = Inr out \<Longrightarrow> length out = length es"
  by (induction es arbitrary: out) (auto split: sum.splits)

lemma getCipherJSON_inv:
  assumes "getCipherJSON E s = (Inr j, s')" and "kb_cipherobj s = Some c"
  shows "\<exists>env. j = json_stringify E env \<and> length (keys env) = length (keys c) \<and>
               v env = v c \<and> mode env = mode c"
  using assms
  by (auto simp: getCipherJSON_def encodeKeys_length split: sum.splits)

lemma encryptPlaintext_inv:
  assumes "encryptPlaintext E s pt = Some (Inr j, s')"
  shows "\<exists>env. j = json_stringify E env \<and> length (keys env) = length (kb_keys s) \<and>
               v env = JNum 2 \<and> mode env = aes_cipher_mode s"
proof -
  let ?p = "fst (makeMetadataObject s)"
  let ?s2 = "(snd (makeMetadataObject s))\<lparr>kb_lastMetadata := Some ?p\<rparr>"
  let ?ptxt = "if pt = Null then kb_plaintext (snd (makeMetadataObject s)) else pt"
  obtain r s3 where e: "encryptChaCha20Poly1305 E ?s2 (kb_master ?s2) ?ptxt (iv ?p) (U8 []) = (r, s3)"
    by (cases "encryptChaCha20Poly1305 E ?s2 (kb_master ?s2) ?ptxt (iv ?p) (U8 [])")
  obtain p cl where "s3 = ?s2\<lparr>entropy_pos := p, calls := cl\<rparr>"
    using encryptChaCha20Poly1305_state[of E ?s2 "kb_master ?s2" ?ptxt "iv ?p" "U8 []"] e by auto
  then have k3: "kb_keys s3 = kb_keys s"
    by (simp add: makeMetadataObject_def snd_getRandomBytes)
  show ?thesis
  proof (cases r)
    case (Inl err)
    then show ?thesis using assms e by (simp add: encryptPlaintext_def Let_def)
  next
    case (Inr cn)
    obtain c n where cn: "cn = (c, n)" by (cases cn)
    let ?p' = "?p\<lparr>ct := U8 c, iv := n\<rparr>"
    let ?s4 = "s3\<lparr>kb_lastMetadata := Some ?p', kb_cipherobj := Some ?p'\<rparr>"
    have k4: "kb_keys ?s4 = kb_keys s" using k3 by simp
    have ep: "encryptPlaintext E s pt =
        (case augmentWithEncryptedKeys E ?s4 ?p' of
           None \<Rightarrow> None
         | Some (Inl e, s5) \<Rightarrow> Some (Inl e, s5)
         | Some (Inr p'', s5) \<Rightarrow>
             Some (getCipherJSON E (s5\<lparr>kb_lastMetadata := Some p'', kb_cipherobj := Some p''\<rparr>)))"
      using e Inr cn by (simp add: encryptPlaintext_def Let_def)
    then obtain p'' s5 where a: "augmentWithEncryptedKeys E ?s4 ?p' = Some (Inr p'', s5)"
        and g: "getCipherJSON E (s5\<lparr>kb_lastMetadata := Some p'', kb_cipherobj := Some p''\<rparr>) = (Inr j, s')"
      using assms by (auto split: option.splits sum.splits)
    have "length (keys p'') = length (kb_keys s) \<and> v p'' = v ?p' \<and> mode p'' = mode ?p'"
      using augmentWithEncryptedKeys_inv[OF a] k4 by simp
    then have f: "length (keys p'') = length (kb_keys s)" "v p'' = JNum 2" "mode p'' = aes_cipher_mode s"
      by (simp_all add: makeMetadataObject_def)
    obtain env where "j = json_stringify E env" "length (keys env) = length (keys p'')"
        "v env = v p''" "mode env = mode p''"
      using getCipherJSON_inv[OF g] by auto
    then show ?thesis using f by auto
  qed
qed

lemma makeKeyCombinations_loop_inv:
  "makeKeyCombinations_loop E s cs = (r, s') \<Longrightarrow>
   aes_cipher_mode s' = aes_cipher_mode s \<and>
   (\<forall>dks. r = Inr dks \<longrightarrow> length (kb_keys s') = length (kb_keys s) + length cs)"
proof (induction cs arbitrary: s)
  case Nil
  then show ?case by auto
next
  case (Cons c cs)
  obtain r1 s1 where m: "makeKeyFromPassword E s c = (r1, s1)"
    by (cases "makeKeyFromPassword E s c")
  then have s1: "s1 = s\<lparr>calls := calls s @ [Derive c]\<rparr>"
    using makeKeyFromPassword_state[of E s c] by simp
  show ?case
  proof (cases r1)
    case (Inl e)
    then show ?thesis using Cons.prems m s1 by auto
  next
    case (Inr k)
    then have "makeKeyCombinations_loop E (s1\<lparr>kb_keys := kb_keys s1 @ [k]\<rparr>) cs = (r, s')"
      using Cons.prems m by simp
    from Cons.IH[OF this] show ?thesis using s1 by simp
  qed
qed

lemma makeKeyCombinations_inv:
  assumes "makeKeyCombinations E s passwords m = (r, s')"
  shows "aes_cipher_mode s' = aes_cipher_mode s \<and>
         (\<forall>dks M. r = Inr dks \<and> m = Some M \<and> 1 \<le> M \<longrightarrow>
              length (kb_keys s') = length passwords choose nat M)"
proof (cases "combine (sort (map normalizeString passwords)) [] None (to_num m) 0")
  case (Inl e)
  then show ?thesis using assms
    by (auto simp: makeKeyCombinations_def makeCombinedPasswords_def)
next
  case (Inr combos)
  let ?s1 = "s\<lparr>kb_keys := [], kb_nPasswords := Some (int (length passwords)), kb_nToUnlock := m\<rparr>"
  have l: "makeKeyCombinations_loop E ?s1 combos = (r, s')"
    using assms Inr by (simp add: makeKeyCombinations_def makeCombinedPasswords_def)
  have a: "aes_cipher_mode s' = aes_cipher_mode s"
    and b: "\<forall>dks. r = Inr dks \<longrightarrow> length (kb_keys s') = length combos"
    using makeKeyCombinations_loop_inv[OF l] by simp_all
  have "\<forall>dks M. r = Inr dks \<and> m = Some M \<and> 1 \<le> M \<longrightarrow>
              length (kb_keys s') = length passwords choose nat M"
  proof (intro allI impI)
    fix dks M assume h: "r = Inr dks \<and> m = Some M \<and> 1 \<le> M"
    then have "combos = map space_join (choose_lists (nat M) (sort (map normalizeString passwords)))"
      using Inr by (simp add: combine_top)
    then show "length (kb_keys s') = length passwords choose nat M"
      using b h by (simp add: length_choose_lists)
  qed
  with a show ?thesis by blast
qed

lemma makeAESKey_fields:
  "kb_keys (makeAESKey s) = kb_keys s" "aes_cipher_mode (makeAESKey s) = aes_cipher_mode s"
  by (simp_all add: makeAESKey_def snd_getRandomBytes)

lemma encryptWithPasswords_inv:
  assumes "encryptWithPasswords E s passwords m = Some (Inr j, s')"
  shows "\<exists>env. j = json_stringify E env \<and> v env = JNum 2 \<and> mode env = aes_cipher_mode s \<and>
           (\<forall>M. m = Some M \<and> 1 \<le> M \<longrightarrow> length (keys env) = length passwords choose nat M)"
proof -
  obtain r s1 where mk: "makeKeyCombinations E s passwords m = (r, s1)"
    by (cases "makeKeyCombinations E s passwords m")
  show ?thesis
  proof (cases r)
    case (Inl e)
    then show ?thesis using assms mk by (simp add: encryptWithPasswords_def)
  next
    case (Inr dks)
    then have "encryptPlaintext E (makeAESKey s1) (kb_plaintext (makeAESKey s1)) = Some (Inr j, s')"
      using assms mk by (simp add: encryptWithPasswords_def)
    then obtain env where env: "j = json_stringify E env"
        "length (keys env) = length (kb_keys s1)" "v env = JNum 2" "mode env = aes_cipher_mode s1"
      using encryptPlaintext_inv[of E "makeAESKey s1" _ j s'] by (auto simp: makeAESKey_fields)
    have "aes_cipher_mode s1 = aes_cipher_mode s"
      and "\<forall>M. m = Some M \<and> 1 \<le> M \<longrightarrow> length (kb_keys s1) = length passwords choose nat M"
      using makeKeyCombinations_inv[OF mk] Inr by auto
    then show ?thesis using env by auto
  qed
qed

section \<open>The number of wrapped keys (C2)\<close>

text \<open>
  C2. For every password list of length \<open>N\<close> and every \<open>M \<ge> 1\<close>, every envelope that
  \<open>encryptWithPasswords\<close> returns has a \<open>keys\<close> array of length \<open>C(N, M)\<close>. And the call
  does return an envelope when the libraries keep their contracts, the salt and the
  plaintext are set, the random source is fair and \<open>N \<le> 31\<close>.
\<close>

theorem C2_wrapped_key_count:
  assumes "1 \<le> M"
  shows "(\<forall>j s'. encryptWithPasswords E s passwords (Some M) = Some (Inr j, s') \<longrightarrow>
            (\<exists>env. j = json_stringify E env \<and> length (keys env) = length passwords choose nat M)) \<and>
         (kdf_total E \<and> aead_correct E \<and> base64_roundtrip E \<and>
          is_u8 (kb_salt s) \<and> is_u8 (kb_plaintext s) \<and> aes_key_strength s = 32 \<and>
          entropy_fair (entropy s) \<and> length passwords \<le> 31 \<longrightarrow>
            (\<exists>j s'. encryptWithPasswords E s passwords (Some M) = Some (Inr j, s')))"
proof (intro conjI allI impI)
  fix j s' assume "encryptWithPasswords E s passwords (Some M) = Some (Inr j, s')"
  from encryptWithPasswords_inv[OF this] assms
  show "\<exists>env. j = json_stringify E env \<and> length (keys env) = length passwords choose nat M"
    by auto
next
  assume h: "kdf_total E \<and> aead_correct E \<and> base64_roundtrip E \<and>
          is_u8 (kb_salt s) \<and> is_u8 (kb_plaintext s) \<and> aes_key_strength s = 32 \<and>
          entropy_fair (entropy s) \<and> length passwords \<le> 31"
  obtain slt pt where sp: "kb_salt s = U8 slt" "kb_plaintext s = U8 pt"
    using h is_u8_bytes_of by metis
  have "\<exists>c s' mk. encryptWithPasswords E s passwords (Some M) =
             Some (Inr (json_stringify E (encoded E c)), s') \<and>
           sealed_for E mk pt
             (map (\<lambda>cmb. U8 (dk E slt (pbkdf2_iterations s) cmb)) (combinations_of passwords M)) c \<and>
           v c = JNum 2 \<and> mode c = aes_cipher_mode s \<and> salt c = U8 slt \<and>
           iter c = pbkdf2_iterations s \<and> nunlock c = Some M \<and>
           nkeys c = Some (int (length passwords))"
    using h sp assms by (intro encryptWithPasswords_returns) simp_all
  then show "\<exists>j s'. encryptWithPasswords E s passwords (Some M) = Some (Inr j, s')" by blast
qed

theorem C2_wrapped_key_count_witness:
  "\<exists>j s'. encryptWithPasswords demo_library demo_sender [js ''a'', js ''b''] (Some 1) = Some (Inr j, s') \<and>
          length (keys j) = 2"
proof -
  have m: "(1::int) \<le> 1" by simp
  note t = C2_wrapped_key_count[OF m, of demo_library demo_sender "[js ''a'', js ''b'']"]
  have h: "kdf_total demo_library \<and> aead_correct demo_library \<and> base64_roundtrip demo_library \<and>
          is_u8 (kb_salt demo_sender) \<and> is_u8 (kb_plaintext demo_sender) \<and>
          aes_key_strength demo_sender = 32 \<and> entropy_fair (entropy demo_sender) \<and>
          length [js ''a'', js ''b''] \<le> 31"
    by (simp add: demo_kdf_total demo_aead_correct demo_base64_roundtrip demo_sender_fields
        zero_entropy_fair)
  obtain j s' where r: "encryptWithPasswords demo_library demo_sender [js ''a'', js ''b''] (Some 1) = Some (Inr j, s')"
    using t h by blast
  then obtain env where "j = json_stringify demo_library env"
      "length (keys env) = length [js ''a'', js ''b''] choose nat 1"
    using t by blast
  then have "length (keys j) = 2" by (simp add: demo_library_def)
  with r show ?thesis by blast
qed

section \<open>The encryption path never writes a legacy envelope (C9)\<close>

text \<open>
  C9. While the setting \<open>aes_cipher_mode\<close> has the value of the object literal (no
  operation of \<open>kb.js\<close> assigns it), every envelope returned by \<open>encryptWithPasswords\<close>
  or by \<open>encryptPlaintext\<close>, for any passwords, threshold and plaintext, has \<open>v = 2\<close> and
  mode \<open>'chacha20poly1305'\<close> and is not classified as legacy by \<open>isLegacyFormat\<close>.
\<close>

theorem C9_never_legacy:
  assumes "aes_cipher_mode s = js ''chacha20poly1305''"
  shows "(\<forall>j s'. encryptWithPasswords E s passwords m = Some (Inr j, s') \<longrightarrow>
            (\<exists>env. j = json_stringify E env \<and> v env = JNum 2 \<and>
                   mode env = js ''chacha20poly1305'' \<and> \<not> isLegacyFormat env)) \<and>
         (\<forall>j s'. encryptPlaintext E s pt = Some (Inr j, s') \<longrightarrow>
            (\<exists>env. j = json_stringify E env \<and> v env = JNum 2 \<and>
                   mode env = js ''chacha20poly1305'' \<and> \<not> isLegacyFormat env))"
proof (intro conjI allI impI)
  fix j s' assume "encryptWithPasswords E s passwords m = Some (Inr j, s')"
  from encryptWithPasswords_inv[OF this]
  obtain env where e: "j = json_stringify E env" "v env = JNum 2" "mode env = aes_cipher_mode s"
    by blast
  have "\<not> isLegacyFormat env" using e(2,3) assms by (simp add: isLegacyFormat_def js_modes)
  then show "\<exists>env. j = json_stringify E env \<and> v env = JNum 2 \<and>
                   mode env = js ''chacha20poly1305'' \<and> \<not> isLegacyFormat env"
    using e assms by (intro exI[of _ env]) simp
next
  fix j s' assume "encryptPlaintext E s pt = Some (Inr j, s')"
  from encryptPlaintext_inv[OF this]
  obtain env where e: "j = json_stringify E env" "v env = JNum 2" "mode env = aes_cipher_mode s"
    by blast
  have "\<not> isLegacyFormat env" using e(2,3) assms by (simp add: isLegacyFormat_def js_modes)
  then show "\<exists>env. j = json_stringify E env \<and> v env = JNum 2 \<and>
                   mode env = js ''chacha20poly1305'' \<and> \<not> isLegacyFormat env"
    using e assms by (intro exI[of _ env]) simp
qed

theorem C9_never_legacy_witness:
  "\<exists>j s'. encryptWithPasswords demo_library demo_sender [js ''a'', js ''b''] (Some 1) = Some (Inr j, s') \<and>
          v j = JNum 2 \<and> mode j = js ''chacha20poly1305'' \<and> \<not> isLegacyFormat j"
proof -
  have "\<exists>c s' mk. encryptWithPasswords demo_library demo_sender [js ''a'', js ''b''] (Some 1) =
             Some (Inr (json_stringify demo_library (encoded demo_library c)), s') \<and>
           sealed_for demo_library mk [1, 2, 3]
             (map (\<lambda>cmb. U8 (dk demo_library (replicate 16 0) (pbkdf2_iterations demo_sender) cmb))
                (combinations_of [js ''a'', js ''b''] 1)) c \<and>
           v c = JNum 2 \<and> mode c = aes_cipher_mode demo_sender \<and> salt c = U8 (replicate 16 0) \<and>
           iter c = pbkdf2_iterations demo_sender \<and> nunlock c = Some 1 \<and>
           nkeys c = Some (int (length [js ''a'', js ''b'']))"
    by (intro encryptWithPasswords_returns)
       (simp_all add: demo_kdf_total demo_aead_correct demo_base64_roundtrip demo_sender_fields
          zero_entropy_fair)
  then obtain j s' where r: "encryptWithPasswords demo_library demo_sender [js ''a'', js ''b''] (Some 1) = Some (Inr j, s')"
    by blast
  obtain env where "j = json_stringify demo_library env" "v env = JNum 2"
      "mode env = js ''chacha20poly1305''" "\<not> isLegacyFormat env"
    using C9_never_legacy[OF demo_sender_fields(4), of demo_library "[js ''a'', js ''b'']" "Some 1"] r
    by blast
  then have "v j = JNum 2 \<and> mode j = js ''chacha20poly1305'' \<and> \<not> isLegacyFormat j"
    by (simp add: demo_library_def)
  with r show ?thesis by blast
qed

section \<open>A threshold out of range (C4)\<close>


lemma makeKeyCombinations_short:
  assumes "int (length passwords) < to_num m"
  shows "makeKeyCombinations E s passwords m =
     (Inr [], s\<lparr>kb_keys := [], kb_nPasswords := Some (int (length passwords)), kb_nToUnlock := m\<rparr>)"
proof -
  have m1: "1 \<le> to_num m" using assms by linarith
  have "length (sort (map normalizeString passwords)) < nat (to_num m)" using assms by simp
  then have "choose_lists (nat (to_num m)) (sort (map normalizeString passwords)) = []"
    by (rule choose_lists_short)
  then have "combine (sort (map normalizeString passwords)) [] None (to_num m) 0 = Inr []"
    using m1 by (simp add: combine_top)
  then show ?thesis
    by (simp add: makeKeyCombinations_def makeCombinedPasswords_def)
qed







section \<open>Too few passwords at decryption (C5)\<close>

lemma getMDecPass_collect_eq:
  "i + n \<le> length form \<Longrightarrow>
   getMDecPass_collect form i n acc =
     Inr (acc @ filter (\<lambda>p. p \<noteq> []) (map normalizeString (take n (drop i form))))"
proof (induction n arbitrary: i acc)
  case 0
  then show ?case by simp
next
  case (Suc n)
  then have i: "i < length form" and r: "(i + 1) + n \<le> length form" by simp_all
  have d: "drop i form = form ! i # drop (i + 1) form"
    using i by (simp add: Cons_nth_drop_Suc)
  show ?case
    using i Suc.IH[OF r] by (simp add: d Let_def)
qed

lemma decryptKeys_no_keys:
  assumes "kb_keys s = []" and "kb_cipherobj s = Some c"
  shows "decryptKeys E s = (Inr False, s)"
  using assms by (simp add: decryptKeys_def decryptKeysLegacy_def split: option.splits)

text \<open>
  C5. When an envelope is loaded, the form has its inputs, and fewer non-blank
  passwords are entered than the threshold \<open>_nToUnlock\<close>, \<open>kbp.decrypt\<close> reports
  the insufficient-passwords alert; it then goes on with the short list, which yields
  no combination: no key is derived, no wrapped key is opened, no random byte is
  drawn, \<open>_master\<close> and \<open>_plaintext\<close> are unchanged, and nothing is offered for
  download. (A second alert, that the key could not be decoded, follows.)
\<close>

theorem C5_insufficient_passwords:
  assumes "kb_cipherobj s = Some c"
    and "nat (to_num (nkeys c)) \<le> length form"
    and "int (length (filter (\<lambda>p. p \<noteq> [])
                 (map normalizeString (take (nat (to_num (nkeys c))) form))))
           < to_num (kb_nToUnlock s)"
  shows "\<exists>s'. decrypt E s form =
                Some (Inr None, [AtLeastPasscodes (kb_nToUnlock s), CouldNotDecode], s') \<and>
              calls s' = calls s \<and> entropy_pos s' = entropy_pos s \<and>
              kb_master s' = kb_master s \<and> kb_plaintext s' = kb_plaintext s"
proof -
  let ?m = "kb_nToUnlock s"
  let ?pw = "filter (\<lambda>p. p \<noteq> []) (map normalizeString (take (nat (to_num (nkeys c))) form))"
  have col: "getMDecPass_collect form 0 (nat (to_num (nkeys c))) [] = Inr ?pw"
    using getMDecPass_collect_eq[of 0 "nat (to_num (nkeys c))" form "[]"] assms(2) by simp
  have g: "getMDecPass s form (nkeys c) ?m = Some (Inr ?pw, [AtLeastPasscodes ?m], s)"
    using assms(3) by (simp add: getMDecPass_def col)
  let ?s2 = "s\<lparr>kb_keys := [], kb_nPasswords := Some (int (length ?pw)), kb_nToUnlock := ?m\<rparr>"
  have mk: "makeKeyCombinations E s ?pw ?m = (Inr [], ?s2)"
    using assms(3) by (rule makeKeyCombinations_short)
  have dk: "decryptKeys E ?s2 = (Inr False, ?s2)"
    by (rule decryptKeys_no_keys[where c=c]) (simp_all add: assms(1))
  have "decrypt E s form = Some (Inr None, [AtLeastPasscodes ?m, CouldNotDecode], ?s2)"
    using assms(1) g mk dk by (simp add: decrypt_def getNumToUnlock_def)
  then show ?thesis by simp
qed

theorem C5_insufficient_passwords_witness:
  "\<exists>s'. decrypt demo_library ((demo_state [])\<lparr>kb_nToUnlock := Some 2\<rparr>) [js ''a'', js '' ''] =
           Some (Inr None, [AtLeastPasscodes (Some 2), CouldNotDecode], s') \<and>
         calls s' = [] \<and> kb_master s' = U8 [5]"
proof -
  let ?s = "(demo_state [])\<lparr>kb_nToUnlock := Some 2\<rparr>"
  have c: "kb_cipherobj ?s = Some demo_cipherobj" by (simp add: demo_state_def)
  have n: "nat (to_num (nkeys demo_cipherobj)) \<le> length [js ''a'', js '' '']"
    by (simp add: demo_cipherobj_def)
  have b: "normalizeString (js '' '') = []"
    by (simp add: normalizeString_def js_def strip_ends_def is_ws_def)
  have l: "int (length (filter (\<lambda>p. p \<noteq> [])
                 (map normalizeString (take (nat (to_num (nkeys demo_cipherobj))) [js ''a'', js '' '']))))
           < to_num (kb_nToUnlock ?s)"
    by (simp add: demo_cipherobj_def normalizeString_ab b)
  have s: "calls ?s = []" "kb_master ?s = U8 [5]" "kb_nToUnlock ?s = Some 2"
    by (simp_all add: demo_state_def keybearer_def)
  obtain s' where "decrypt demo_library ?s [js ''a'', js '' ''] =
           Some (Inr None, [AtLeastPasscodes (kb_nToUnlock ?s), CouldNotDecode], s')"
      "calls s' = calls ?s" "kb_master s' = kb_master ?s"
    using C5_insufficient_passwords[OF c n l, of demo_library] by blast
  then show ?thesis unfolding s by blast
qed

end
